theory Spec2Isabelle
  imports Complex_Main "HOL-Library.AList"
begin

section \<open>Python values carried by the JSON payloads\<close>

text \<open>
  The registry service (\<^verbatim>\<open>server.py\<close>) keeps a list of Python dictionaries. A payload
  is the dictionary that \<^verbatim>\<open>request.get_json()\<close> yields for a JSON object; its field
  values are modelled as the scalar JSON values. Integers are Python's unbounded
  integers. Floats are modelled as reals: the only floats the code computes with are the
  timestamps of \<^verbatim>\<open>time.time()\<close>, which it subtracts and compares with 60 (rounding and
  NaN are outside the model). A dictionary is a finite map from keys to values.
\<close>

datatype pyval = PNone | PBool bool | PInt int | PFloat real | PStr string

type_synonym pydict = "string \<Rightarrow> pyval option"

text \<open>The numeric reading of a value: \<^verbatim>\<open>bool\<close> is a subclass of \<^verbatim>\<open>int\<close> in Python.\<close>

fun num_of :: "pyval \<Rightarrow> real option" where
  "num_of (PBool b) = Some (if b then 1 else 0)"
| "num_of (PInt i) = Some (of_int i)"
| "num_of (PFloat r) = Some r"
| "num_of PNone = None"
| "num_of (PStr s) = None"

text \<open>
  Python's \<^verbatim>\<open>==\<close> on these values: numbers compare by value across
  \<^verbatim>\<open>bool\<close>, \<^verbatim>\<open>int\<close> and \<^verbatim>\<open>float\<close> (\<^verbatim>\<open>7777 == 7777.0\<close>, \<^verbatim>\<open>True == 1\<close>);
  a number never equals a string or \<^verbatim>\<open>None\<close>.
\<close>

definition py_eq :: "pyval \<Rightarrow> pyval \<Rightarrow> bool" where
  "py_eq a b =
     (case num_of a of
        Some x \<Rightarrow> (case num_of b of Some y \<Rightarrow> x = y | None \<Rightarrow> False)
      | None \<Rightarrow> (case num_of b of Some y \<Rightarrow> False | None \<Rightarrow> a = b))"

datatype error = KeyError string | TypeError | IndexError

section \<open>The registry service: \<^verbatim>\<open>server.py\<close>\<close>

text \<open>
  \<^verbatim>\<open>servers\<close> is the module-level list; every handler takes it and returns it, so
  that what a handler mutates is visible. A handler returns either the pair
  \<^verbatim>\<open>(body, status)\<close> it answers with, or the exception it lets escape.
\<close>

type_synonym store = "pydict list"

datatype body = Message string string | Records "pydict list"

type_synonym reply = "body \<times> int"

definition required_fields :: "string list" where
  "required_fields = [''name'', ''public_ip'', ''port'', ''map'']"

text \<open>\<^verbatim>\<open>all(field in data for field in required_fields)\<close>\<close>

definition has_required :: "pydict \<Rightarrow> bool" where
  "has_required data = list_all (\<lambda>field. data field \<noteq> None) required_fields"

text \<open>
  The test of line 19,
  \<^verbatim>\<open>s["public_ip"] == data["public_ip"] and s["port"] == data["port"]\<close>:
  a subscript of a missing key raises \<^verbatim>\<open>KeyError\<close>, and \<^verbatim>\<open>and\<close> does not evaluate
  its right operand when the left one is false.
\<close>

definition subscript :: "pydict \<Rightarrow> string \<Rightarrow> error + pyval" where
  "subscript d k = (case d k of None \<Rightarrow> Inl (KeyError k) | Some v \<Rightarrow> Inr v)"

definition same_endpoint :: "pydict \<Rightarrow> pydict \<Rightarrow> error + bool" where
  "same_endpoint s data =
     (case subscript s ''public_ip'' of
        Inl e \<Rightarrow> Inl e
      | Inr a \<Rightarrow>
         (case subscript data ''public_ip'' of
            Inl e \<Rightarrow> Inl e
          | Inr b \<Rightarrow>
             (if \<not> py_eq a b then Inr False
              else
               (case subscript s ''port'' of
                  Inl e \<Rightarrow> Inl e
                | Inr p \<Rightarrow>
                   (case subscript data ''port'' of
                      Inl e \<Rightarrow> Inl e
                    | Inr q \<Rightarrow> Inr (py_eq p q))))))"

text \<open>
  \<^verbatim>\<open>s.update(data); s["last_seen"] = time.time()\<close>: every key of \<^verbatim>\<open>data\<close> is
  written into \<^verbatim>\<open>s\<close>, the other keys of \<^verbatim>\<open>s\<close> stay, then the timestamp is written.
\<close>

definition refresh :: "real \<Rightarrow> pydict \<Rightarrow> pydict \<Rightarrow> pydict" where
  "refresh now data s = (s ++ data)(''last_seen'' \<mapsto> PFloat now)"

text \<open>
  The loop of lines 18 to 23. It returns \<^verbatim>\<open>server_exists\<close> and the list after the
  loop; the first matching record is refreshed and the loop breaks. An exception can
  only be raised by the test, before anything is written.
\<close>

fun update_loop :: "real \<Rightarrow> pydict \<Rightarrow> store \<Rightarrow> error + (bool \<times> store)" where
  "update_loop now data [] = Inr (False, [])"
| "update_loop now data (s # ss) =
     (case same_endpoint s data of
        Inl e \<Rightarrow> Inl e
      | Inr True \<Rightarrow> Inr (True, refresh now data s # ss)
      | Inr False \<Rightarrow>
          (case update_loop now data ss of
             Inl e \<Rightarrow> Inl e
           | Inr (found, ss') \<Rightarrow> Inr (found, s # ss')))"

text \<open>\<^verbatim>\<open>add_server\<close>, with \<^verbatim>\<open>now\<close> the value \<^verbatim>\<open>time.time()\<close> returns.\<close>

definition add_server :: "real \<Rightarrow> pydict \<Rightarrow> store \<Rightarrow> (error + reply) \<times> store" where
  "add_server now data servers =
     (if \<not> has_required data
      then (Inr (Message ''error'' ''Missing required server fields'', 400), servers)
      else
        (case update_loop now data servers of
           Inl e \<Rightarrow> (Inl e, servers)
         | Inr (server_exists, servers') \<Rightarrow>
             (Inr (Message ''status'' ''Server registered/updated'', 200),
              if \<not> server_exists
              then servers' @ [data(''last_seen'' \<mapsto> PFloat now)]
              else servers')))"

text \<open>
  \<^verbatim>\<open>get_servers\<close>: the comprehension
  \<^verbatim>\<open>[s for s in servers if now - s.get("last_seen", 0) < 60]\<close>. \<^verbatim>\<open>s.get\<close> reads and
  never inserts its default; subtracting a string or \<^verbatim>\<open>None\<close> from a float raises
  \<^verbatim>\<open>TypeError\<close>. The function has no assignment, so the list it returns as the second
  component is the list it was given.
\<close>

definition get_default :: "pydict \<Rightarrow> string \<Rightarrow> pyval \<Rightarrow> pyval" where
  "get_default d k dflt = (case d k of None \<Rightarrow> dflt | Some v \<Rightarrow> v)"

fun fresh_servers :: "real \<Rightarrow> store \<Rightarrow> error + pydict list" where
  "fresh_servers now [] = Inr []"
| "fresh_servers now (s # ss) =
     (case num_of (get_default s ''last_seen'' (PInt 0)) of
        None \<Rightarrow> Inl TypeError
      | Some seen \<Rightarrow>
          (case fresh_servers now ss of
             Inl e \<Rightarrow> Inl e
           | Inr rest \<Rightarrow> Inr (if now - seen < 60 then s # rest else rest)))"

definition get_servers :: "real \<Rightarrow> store \<Rightarrow> (error + reply) \<times> store" where
  "get_servers now servers =
     (case fresh_servers now servers of
        Inl e \<Rightarrow> (Inl e, servers)
      | Inr fresh \<Rightarrow> (Inr (Records fresh, 200), servers))"

subsection \<open>Predicates on the store\<close>

text \<open>
  A stored record is \<open>keyed\<close> when it has the two fields the test of line 19 reads, and
  \<open>stamped\<close> when its \<^verbatim>\<open>last_seen\<close> is a float, as \<^verbatim>\<open>add_server\<close> writes it;
  \<open>last_seen\<close> reads that float.
\<close>

definition stamped :: "pydict \<Rightarrow> bool" where
  "stamped s = (case s ''last_seen'' of Some (PFloat t) \<Rightarrow> True | _ \<Rightarrow> False)"

definition last_seen :: "pydict \<Rightarrow> real" where
  "last_seen s = (case s ''last_seen'' of Some (PFloat t) \<Rightarrow> t | _ \<Rightarrow> 0)"

definition keyed :: "pydict \<Rightarrow> bool" where
  "keyed s = (s ''public_ip'' \<noteq> None \<and> s ''port'' \<noteq> None)"

text \<open>Two dictionaries name the same endpoint when the test of line 19 answers \<^verbatim>\<open>True\<close>.\<close>

definition endpoint_eq :: "pydict \<Rightarrow> pydict \<Rightarrow> bool" where
  "endpoint_eq a b = (same_endpoint a b = Inr True)"

fun unique_endpoints :: "store \<Rightarrow> bool" where
  "unique_endpoints [] = True"
| "unique_endpoints (s # ss) = (\<not> list_ex (endpoint_eq s) ss \<and> unique_endpoints ss)"

definition registry_inv :: "store \<Rightarrow> bool" where
  "registry_inv srv = (list_all (\<lambda>s. keyed s \<and> stamped s) srv \<and> unique_endpoints srv)"

text \<open>A sequence of \<^verbatim>\<open>POST /add_server\<close> requests, each with the clock value it reads.\<close>

fun announce_all :: "(real \<times> pydict) list \<Rightarrow> store \<Rightarrow> store" where
  "announce_all [] srv = srv"
| "announce_all (c # cs) srv = announce_all cs (snd (add_server (fst c) (snd c) srv))"

text \<open>The list the loop of lines 18 to 23 leaves, when no subscript raises.\<close>

fun refreshed :: "real \<Rightarrow> pydict \<Rightarrow> store \<Rightarrow> store" where
  "refreshed now d [] = []"
| "refreshed now d (s # ss) =
     (if endpoint_eq s d then refresh now d s # ss else s # refreshed now d ss)"

text \<open>The status code of an answer; an escaped exception has none.\<close>

definition status_of :: "error + reply \<Rightarrow> int option" where
  "status_of r = (case r of Inl e \<Rightarrow> None | Inr (b, code) \<Rightarrow> Some code)"

subsection \<open>Sample payloads\<close>

definition alpha :: pydict where
  "alpha = [''name'' \<mapsto> PStr ''Alpha'', ''public_ip'' \<mapsto> PStr ''1.2.3.4'',
            ''port'' \<mapsto> PInt 7777, ''map'' \<mapsto> PStr ''District'']"

definition beta :: pydict where
  "beta = [''name'' \<mapsto> PStr ''Beta'', ''public_ip'' \<mapsto> PStr ''1.2.3.4'',
           ''port'' \<mapsto> PFloat 7777, ''map'' \<mapsto> PStr ''Canals'']"

definition aged :: "real \<Rightarrow> pydict" where
  "aged t = alpha(''last_seen'' \<mapsto> PFloat t)"

definition zero_port :: pydict where
  "zero_port = alpha(''port'' \<mapsto> PInt 0)"

definition no_port :: pydict where
  "no_port = [''name'' \<mapsto> PStr ''Alpha'', ''public_ip'' \<mapsto> PStr ''1.2.3.4'',
              ''map'' \<mapsto> PStr ''District'']"

definition stale :: pydict where
  "stale = alpha(''last_seen'' \<mapsto> PInt 0)"

definition gamma :: pydict where
  "gamma = beta(''mode'' \<mapsto> PStr ''koth'')"

section \<open>The desktop client: \<^verbatim>\<open>ez_browser.py\<close>\<close>

subsection \<open>Hosted servers and the launch of a selected one\<close>

text \<open>The dataclass \<^verbatim>\<open>Host\<close>; \<^verbatim>\<open>id\<close> and \<^verbatim>\<open>map\<close> are renamed, both being constants of HOL.\<close>

record Host =
  host_id :: string
  name :: string
  public_ip :: string
  local_ip :: string
  port :: int
  host_map :: string
  password :: string
  exe_path :: string

text \<open>\<^verbatim>\<open>str\<close> of an integer, as the f-strings of lines 370 to 377 format \<^verbatim>\<open>cfg.port\<close>.\<close>

definition digit_chars :: string where
  "digit_chars = ''0123456789''"

function str_nat :: "nat \<Rightarrow> string" where
  "str_nat n = (if n < 10 then [digit_chars ! n] else str_nat (n div 10) @ [digit_chars ! (n mod 10)])"
  by pat_completeness auto
termination
  by (relation "measure id") auto

declare str_nat.simps [simp del]

definition str_int :: "int \<Rightarrow> string" where
  "str_int i = (if i < 0 then CHR ''-'' # str_nat (nat (- i)) else str_nat (nat i))"

text \<open>
  What \<^verbatim>\<open>launch_selected\<close> does to the outside: a process created by
  \<^verbatim>\<open>subprocess.Popen\<close> with its argument list, a \<^verbatim>\<open>time.sleep\<close> with its seconds, and
  a \<^verbatim>\<open>QMessageBox.critical\<close> with its title and text.
\<close>

datatype effect = Popen "string list" | Sleep int | Critical string string

definition server_args :: "string \<Rightarrow> Host \<Rightarrow> string list" where
  "server_args exe cfg =
     [exe, ''server'', host_map cfg @ ''.gear?game=koth?MaxPlayers=10?bots=6?'',
      ''-port='' @ str_int (port cfg), ''-useallavailablecores'', ''-log'']"

definition join_args :: "string \<Rightarrow> string \<Rightarrow> int \<Rightarrow> string list" where
  "join_args exe ip p = [exe, ip @ '':'' @ str_int p]"

text \<open>
  The branch \<^verbatim>\<open>idx >= 0\<close> of \<^verbatim>\<open>launch_selected\<close> (lines 360 to 380), for the selected
  \<^verbatim>\<open>cfg = hosts[idx]\<close>. Its inputs from outside are: \<open>ensured\<close>, what
  \<^verbatim>\<open>_ensure_host_exe(cfg)\<close> returns (\<^verbatim>\<open>None\<close> or a path; \<^verbatim>\<open>not exe\<close> holds for both
  \<^verbatim>\<open>None\<close> and the empty string); \<open>pw\<close> and \<open>ok\<close>, the pair \<^verbatim>\<open>QInputDialog.getText\<close>
  returns (\<open>ok\<close> is false when the dialog is cancelled); and \<open>popen\<close>, which tells for
  an argument list whether \<^verbatim>\<open>subprocess.Popen\<close> creates the process (\<open>None\<close>) or raises
  (\<open>Some\<close> of the exception's text). An exception leaves the \<^verbatim>\<open>try\<close> block at once
  and is shown as a launch error. The result is the list of effects in the order they
  happen.
\<close>

definition launch_selected ::
  "Host \<Rightarrow> string option \<Rightarrow> string \<Rightarrow> bool \<Rightarrow> (string list \<Rightarrow> string option) \<Rightarrow> effect list" where
  "launch_selected cfg ensured pw ok popen =
     (case ensured of
        None \<Rightarrow> [Critical ''Error'' ''Executable is required for this server.'']
      | Some exe \<Rightarrow>
          if exe = [] then [Critical ''Error'' ''Executable is required for this server.'']
          else if ok \<and> pw = password cfg then
            (case popen (server_args exe cfg) of
               Some e \<Rightarrow> [Critical ''Launch Error'' e]
             | None \<Rightarrow>
                 Popen (server_args exe cfg) # Sleep 10 #
                 (case popen (join_args exe (local_ip cfg) (port cfg)) of
                    Some e \<Rightarrow> [Critical ''Launch Error'' e]
                  | None \<Rightarrow> [Popen (join_args exe (local_ip cfg) (port cfg))]))
          else
            (case popen (join_args exe (public_ip cfg) (port cfg)) of
               Some e \<Rightarrow> [Critical ''Launch Error'' e]
             | None \<Rightarrow> [Popen (join_args exe (public_ip cfg) (port cfg))]))"

fun is_Popen :: "effect \<Rightarrow> bool" where
  "is_Popen (Popen a) = True"
| "is_Popen _ = False"

subsection \<open>The heartbeat menu\<close>

text \<open>
  The part of the window's state the heartbeat actions touch. A \<^verbatim>\<open>threading.Event\<close>
  is an object shared between the window and a thread, so events are references
  (numbers in the order of creation) and \<open>fired\<close> is the set of the events whose
  flag is set. \<open>hb_threads\<close> is the dictionary from a host's \<^verbatim>\<open>id\<close> to its event, in
  insertion order; \<open>threads\<close> lists the daemon threads started so far, each with the
  arguments of its \<^verbatim>\<open>_hb_loop\<close>; \<open>colors\<close> lists what was emitted on
  \<^verbatim>\<open>hb_color_signal\<close>.
\<close>

record gui =
  hb_threads :: "(string \<times> nat) list"
  fired :: "nat set"
  next_event :: nat
  threads :: "(Host \<times> nat) list"
  colors :: "string list"

definition gui_init :: gui where
  "gui_init = \<lparr>hb_threads = [], fired = {}, next_event = 0, threads = [], colors = []\<rparr>"

text \<open>
  What a call of \<^verbatim>\<open>manual_start_heartbeat\<close> shows or does: the information box asking
  for a selection, the box titled \<^verbatim>\<open>Already Running\<close>, or a started thread.
\<close>

datatype started = SelectFirst | AlreadyRunning | Started

text \<open>
  Lines 411 to 415: a new event, with its flag clear, is stored under the host's id, the
  starting colour is emitted and the thread is started.
\<close>

definition start_thread :: "Host \<Rightarrow> gui \<Rightarrow> gui" where
  "start_thread host st =
     (let stop_event = next_event st in
      st\<lparr>fired := fired st - {stop_event},
         next_event := Suc stop_event,
         hb_threads := AList.update (host_id host) stop_event (hb_threads st),
         colors := colors st @ [''#ffaa00''],
         threads := threads st @ [(host, stop_event)]\<rparr>)"

text \<open>
  \<^verbatim>\<open>manual_start_heartbeat\<close>, with \<open>idx\<close> the selected row and \<open>hosts\<close> what
  \<^verbatim>\<open>load_hosts()\<close> returns; \<^verbatim>\<open>hosts[idx]\<close> raises when the row is beyond the list.
\<close>

definition manual_start_heartbeat :: "int \<Rightarrow> Host list \<Rightarrow> gui \<Rightarrow> (error + started) \<times> gui" where
  "manual_start_heartbeat idx hosts st =
     (if idx < 0 then (Inr SelectFirst, st)
      else if length hosts \<le> nat idx then (Inl IndexError, st)
      else
        (let host = hosts ! nat idx in
         case map_of (hb_threads st) (host_id host) of
           None \<Rightarrow> (Inr Started, start_thread host st)
         | Some ev \<Rightarrow>
             if ev \<notin> fired st then (Inr AlreadyRunning, st)
             else (Inr Started, start_thread host st)))"

text \<open>The two boxes of \<^verbatim>\<open>manual_stop_heartbeat\<close>, by their titles.\<close>

datatype stopped = AllStopped | NoActiveHeartbeat

text \<open>The loop of lines 419 to 421 over the events of the dictionary.\<close>

fun stop_loop :: "nat list \<Rightarrow> nat set \<Rightarrow> bool \<Rightarrow> nat set \<times> bool" where
  "stop_loop [] f any_running = (f, any_running)"
| "stop_loop (ev # evs) f any_running =
     (if ev \<notin> f then stop_loop evs (insert ev f) True else stop_loop evs f any_running)"

definition manual_stop_heartbeat :: "gui \<Rightarrow> stopped \<times> gui" where
  "manual_stop_heartbeat st =
     (case stop_loop (map snd (hb_threads st)) (fired st) False of
        (f, any_running) \<Rightarrow>
          if any_running
          then (AllStopped, st\<lparr>fired := f, hb_threads := [], colors := colors st @ [''red'']\<rparr>)
          else (NoActiveHeartbeat, st\<lparr>fired := f, hb_threads := []\<rparr>))"

text \<open>
  The loops still running for a host id: the started threads of that id whose event is
  not set (a thread leaves \<^verbatim>\<open>_hb_loop\<close> at its next test once its event is set).
\<close>

definition running_loops :: "gui \<Rightarrow> string \<Rightarrow> (Host \<times> nat) list" where
  "running_loops st i = [t \<leftarrow> threads st. host_id (fst t) = i \<and> snd t \<notin> fired st]"

text \<open>
  What holds of every state the two menu actions can reach from the initial one: each
  thread has an event of its own, created before the next one to come; a thread whose
  event is not set is the one the dictionary names for its host; and an entry of the
  dictionary whose event is not set belongs to a started thread of that host.
\<close>

definition gui_inv :: "gui \<Rightarrow> bool" where
  "gui_inv st =
     (distinct (map snd (threads st)) \<and>
      list_all (\<lambda>t. snd t < next_event st) (threads st) \<and>
      list_all (\<lambda>e. snd e < next_event st) (hb_threads st) \<and>
      list_all (\<lambda>t. snd t \<in> fired st \<or> map_of (hb_threads st) (host_id (fst t)) = Some (snd t))
        (threads st) \<and>
      list_all (\<lambda>e. snd e \<in> fired st \<or>
                  list_ex (\<lambda>t. snd t = snd e \<and> host_id (fst t) = fst e) (threads st))
        (hb_threads st))"

text \<open>The test of line 408 fails: no entry for the host, or an entry whose event is set.\<close>

definition may_start :: "Host \<Rightarrow> gui \<Rightarrow> bool" where
  "may_start host st =
     (case map_of (hb_threads st) (host_id host) of None \<Rightarrow> True | Some ev \<Rightarrow> ev \<in> fired st)"

subsection \<open>The heartbeat loop\<close>

text \<open>
  \<^verbatim>\<open>_hb_loop\<close> runs in a thread of its own and talks to the outside through the request
  it posts, the colours it emits and the event it waits on. The model is timed: the
  state carries the clock, each pass of the loop is given the outcome of its request
  (a response with its status code, or a raised exception, a timeout included) and the
  time the request took, and \<open>stop\<close> is the instant at which another thread sets the
  event (\<open>None\<close> when none ever does; the code never clears an event). The test of the
  loop and the post that follows it happen at the same instant.
\<close>

definition HEARTBEAT_INTERVAL :: real where
  "HEARTBEAT_INTERVAL = 5"

datatype outcome = Response int | Raised

text \<open>
  The trace of a loop: a request posted at an instant with its payload, a colour emitted,
  and a wait entered at an instant that lasted some time.
\<close>

datatype hb_event = Post real pydict | Emit string | Wait real real

record hb_state =
  clock :: real
  failures :: int
  trace :: "hb_event list"

text \<open>\<^verbatim>\<open>stop_event.is_set()\<close> at instant \<open>t\<close>.\<close>

definition is_set :: "real option \<Rightarrow> real \<Rightarrow> bool" where
  "is_set stop t = (case stop of None \<Rightarrow> False | Some c \<Rightarrow> c \<le> t)"

text \<open>
  \<^verbatim>\<open>stop_event.wait(timeout)\<close> entered at instant \<open>t\<close>: the instant it returns. It
  returns at once when the flag is already set, at the instant the flag is set when that
  comes before the timeout, and after the timeout otherwise.
\<close>

definition event_wait :: "real option \<Rightarrow> real \<Rightarrow> real \<Rightarrow> real" where
  "event_wait stop t timeout =
     (case stop of
        None \<Rightarrow> t + timeout
      | Some c \<Rightarrow> if c \<le> t then t else min c (t + timeout))"

definition payload :: "Host \<Rightarrow> pydict" where
  "payload host =
     [''name'' \<mapsto> PStr (name host), ''public_ip'' \<mapsto> PStr (public_ip host),
      ''port'' \<mapsto> PInt (port host), ''map'' \<mapsto> PStr (host_map host)]"

text \<open>\<^verbatim>\<open>200 <= r.status_code < 300\<close>; a raised exception is caught and counts as a failure.\<close>

definition success :: "outcome \<Rightarrow> bool" where
  "success r = (case r of Response status_code \<Rightarrow> 200 \<le> status_code \<and> status_code < 300
                        | Raised \<Rightarrow> False)"

text \<open>One pass of the body of the loop, lines 432 to 444.\<close>

definition hb_body :: "real option \<Rightarrow> Host \<Rightarrow> outcome \<times> real \<Rightarrow> hb_state \<Rightarrow> hb_state" where
  "hb_body stop host x st =
     (let posted = clock st;
          answered = posted + snd x;
          failures' = (if success (fst x) then 0 else failures st + 1);
          woke = event_wait stop answered HEARTBEAT_INTERVAL
      in \<lparr>clock = woke,
          failures = failures',
          trace = trace st @ [Post posted (payload host)] @
                  (if success (fst x) then [Emit ''lime''] else []) @
                  (if failures' \<ge> 2 then [Emit ''red''] else []) @
                  [Wait answered (woke - answered)]\<rparr>)"

text \<open>
  \<^verbatim>\<open>while not stop_event.is_set()\<close>, over the passes the environment provides for. The
  loop may run for ever, so a run is given a finite list of passes; it returns the state
  it reached and the passes it did not use. It leaves on the test only: passes are left
  over exactly when the test found the event set.
\<close>

fun hb_while :: "real option \<Rightarrow> Host \<Rightarrow> (outcome \<times> real) list \<Rightarrow> hb_state \<Rightarrow>
    hb_state \<times> (outcome \<times> real) list" where
  "hb_while stop host [] st = (st, [])"
| "hb_while stop host (x # xs) st =
     (if is_set stop (clock st) then (st, x # xs)
      else hb_while stop host xs (hb_body stop host x st))"

text \<open>\<^verbatim>\<open>_hb_loop(host, stop_event)\<close>, entered at instant \<open>started\<close> with \<^verbatim>\<open>failures = 0\<close>.\<close>

definition hb_loop :: "Host \<Rightarrow> real option \<Rightarrow> (outcome \<times> real) list \<Rightarrow> real \<Rightarrow>
    hb_state \<times> (outcome \<times> real) list" where
  "hb_loop host stop env started =
     hb_while stop host env \<lparr>clock = started, failures = 0, trace = []\<rparr>"

text \<open>Readings of a trace: the colours, the instants of the posts, the waits.\<close>

fun emitted :: "hb_event list \<Rightarrow> string list" where
  "emitted [] = []"
| "emitted (Emit c # es) = c # emitted es"
| "emitted (e # es) = emitted es"

fun post_times :: "hb_event list \<Rightarrow> real list" where
  "post_times [] = []"
| "post_times (Post t p # es) = t # post_times es"
| "post_times (e # es) = post_times es"

fun waits :: "hb_event list \<Rightarrow> (real \<times> real) list" where
  "waits [] = []"
| "waits (Wait t w # es) = (t, w) # waits es"
| "waits (e # es) = waits es"

text \<open>
  The colour the indicator shows: the last one emitted. The window paints
  \<^verbatim>\<open>lime\<close> for a delivered heartbeat and \<^verbatim>\<open>red\<close> for a degraded one.
\<close>

definition reported :: "hb_state \<Rightarrow> string option" where
  "reported st = (case emitted (trace st) of [] \<Rightarrow> None | cs \<Rightarrow> Some (last cs))"

text \<open>
  Posts and waits alternate in a trace, a post first and a wait last, colours apart;
  \<open>waiting\<close> tells that a post has been seen whose wait is still to come.
\<close>

fun paced :: "bool \<Rightarrow> hb_event list \<Rightarrow> bool" where
  "paced waiting [] = (\<not> waiting)"
| "paced waiting (Emit c # es) = paced waiting es"
| "paced waiting (Post t p # es) = (\<not> waiting \<and> paced True es)"
| "paced waiting (Wait t w # es) = (waiting \<and> paced False es)"

definition hb_inv :: "real option \<Rightarrow> hb_state \<Rightarrow> bool" where
  "hb_inv stop st =
     ((\<forall>t \<in> set (post_times (trace st)). \<not> is_set stop t) \<and>
      successively (\<lambda>a b. a + HEARTBEAT_INTERVAL \<le> b) (post_times (trace st)) \<and>
      (post_times (trace st) \<noteq> [] \<and> \<not> is_set stop (clock st) \<longrightarrow>
         last (post_times (trace st)) + HEARTBEAT_INTERVAL \<le> clock st) \<and>
      (\<forall>tw \<in> set (waits (trace st)).
         snd tw = event_wait stop (fst tw) HEARTBEAT_INTERVAL - fst tw) \<and>
      paced False (trace st) \<and>
      0 \<le> failures st)"

subsection \<open>Sample hosts, states and runs\<close>

definition jacinto :: Host where
  "jacinto = \<lparr>host_id = ''h1'', name = ''Jacinto'', public_ip = ''1.2.3.4'', local_ip = ''192.168.0.2'',
     port = 7777, host_map = ''District'', password = ''abc'', exe_path = ''C:/game.exe''\<rparr>"

definition azura :: Host where
  "azura = \<lparr>host_id = ''h2'', name = ''Azura'', public_ip = ''1.2.3.4'', local_ip = ''192.168.0.3'',
     port = 7778, host_map = ''Canals'', password = [], exe_path = ''C:/game.exe''\<rparr>"

definition two_running :: gui where
  "two_running = snd (manual_start_heartbeat 1 [jacinto, azura]
                   (snd (manual_start_heartbeat 0 [jacinto, azura] gui_init)))"

definition spawn_ok :: "string list \<Rightarrow> string option" where
  "spawn_ok args = None"

definition spawn_refused :: "string list \<Rightarrow> string option" where
  "spawn_refused args = Some ''[WinError 2] The system cannot find the file specified''"

definition sample_run :: "(outcome \<times> real) list" where
  "sample_run = [(Raised, 3), (Response 500, 1), (Response 200, 1), (Raised, 0)]"

definition sample_stop :: "real option" where
  "sample_stop = Some 12"

section \<open>Properties of the registry service\<close>

subsection \<open>Python equality and the endpoint test\<close>

lemma py_eq_refl: "py_eq a a"
  by (simp add: py_eq_def split: option.splits)

lemma py_eq_sym: "py_eq a b \<Longrightarrow> py_eq b a"
  by (auto simp: py_eq_def split: option.splits)

lemma py_eq_trans: "py_eq a b \<Longrightarrow> py_eq b c \<Longrightarrow> py_eq a c"
  by (auto simp: py_eq_def split: option.splits)

lemma stamped_num: "stamped s \<Longrightarrow> num_of (get_default s ''last_seen'' (PInt 0)) = Some (last_seen s)"
  by (auto simp: stamped_def last_seen_def get_default_def split: option.splits pyval.splits)

lemma fresh_servers_filter:
  "list_all stamped srv \<Longrightarrow> fresh_servers now srv = Inr [s \<leftarrow> srv. now - last_seen s < 60]"
  by (induction srv) (simp_all add: stamped_num)

lemma endpoint_eq_iff:
  "keyed a \<Longrightarrow> keyed b \<Longrightarrow>
   endpoint_eq a b = (py_eq (the (a ''public_ip'')) (the (b ''public_ip'')) \<and> py_eq (the (a ''port'')) (the (b ''port'')))"
  by (auto simp: endpoint_eq_def same_endpoint_def subscript_def keyed_def split: if_splits)

lemma endpoint_eq_keyed: "endpoint_eq a b \<Longrightarrow> keyed a \<and> keyed b"
  by (auto simp: endpoint_eq_def same_endpoint_def subscript_def keyed_def split: option.splits if_splits sum.splits)

lemma same_endpoint_keyed: "keyed a \<Longrightarrow> keyed b \<Longrightarrow> same_endpoint a b = Inr (endpoint_eq a b)"
  by (auto simp: endpoint_eq_def same_endpoint_def subscript_def keyed_def split: if_splits)

lemma endpoint_eq_sym: "endpoint_eq a b \<Longrightarrow> endpoint_eq b a"
  using endpoint_eq_keyed[of a b] by (auto simp: endpoint_eq_iff intro: py_eq_sym)

lemma endpoint_eq_trans: "endpoint_eq a b \<Longrightarrow> endpoint_eq b c \<Longrightarrow> endpoint_eq a c"
  using endpoint_eq_keyed[of a b] endpoint_eq_keyed[of b c]
  by (auto simp: endpoint_eq_iff intro: py_eq_trans)

lemma endpoint_eq_refl: "keyed a \<Longrightarrow> endpoint_eq a a"
  by (simp add: endpoint_eq_iff py_eq_refl)

lemma has_required_keyed: "has_required d \<Longrightarrow> keyed d"
  by (simp add: has_required_def required_fields_def keyed_def)

lemma refresh_fields:
  "refresh now d s ''last_seen'' = Some (PFloat now)"
  "k \<noteq> ''last_seen'' \<Longrightarrow> d k = Some v \<Longrightarrow> refresh now d s k = Some v"
  "k \<noteq> ''last_seen'' \<Longrightarrow> d k = None \<Longrightarrow> refresh now d s k = s k"
  by (simp_all add: refresh_def map_add_def)

lemma keyed_refresh: "keyed d \<Longrightarrow> keyed (refresh now d s)"
  by (auto simp: keyed_def refresh_def map_add_def split: option.splits)

lemma stamped_refresh: "stamped (refresh now d s)"
  by (simp add: stamped_def refresh_def)

lemma same_endpoint_reads:
  assumes "a ''public_ip'' = a' ''public_ip''" "a ''port'' = a' ''port''"
    and "b ''public_ip'' = b' ''public_ip''" "b ''port'' = b' ''port''"
  shows "same_endpoint a b = same_endpoint a' b'"
  using assms by (simp add: same_endpoint_def subscript_def split: option.splits)

lemma endpoint_eq_refresh_left:
  "keyed d \<Longrightarrow> endpoint_eq (refresh now d s) x = endpoint_eq d x"
  unfolding endpoint_eq_def
  by (subst same_endpoint_reads[of _ d _ x]) (auto simp: keyed_def refresh_def map_add_def)

lemma endpoint_eq_refresh_right:
  "keyed d \<Longrightarrow> endpoint_eq x (refresh now d s) = endpoint_eq x d"
  unfolding endpoint_eq_def
  by (subst same_endpoint_reads[of _ x _ d]) (auto simp: keyed_def refresh_def map_add_def)

lemma endpoint_eq_stamp_left:
  "endpoint_eq (d(''last_seen'' \<mapsto> v)) x = endpoint_eq d x"
  unfolding endpoint_eq_def
  by (subst same_endpoint_reads[of _ d _ x]) simp_all

lemma endpoint_eq_stamp_right:
  "endpoint_eq x (d(''last_seen'' \<mapsto> v)) = endpoint_eq x d"
  unfolding endpoint_eq_def
  by (subst same_endpoint_reads[of _ x _ d]) simp_all

lemma update_loop_keyed:
  "list_all keyed srv \<Longrightarrow> keyed d \<Longrightarrow>
   update_loop now d srv = Inr (list_ex (\<lambda>s. endpoint_eq s d) srv, refreshed now d srv)"
  by (induction srv) (simp_all add: same_endpoint_keyed)

lemma refreshed_absent: "\<not> list_ex (\<lambda>s. endpoint_eq s d) srv \<Longrightarrow> refreshed now d srv = srv"
  by (induction srv) simp_all

lemma add_server_valid:
  assumes "list_all keyed srv" "has_required d"
  shows "add_server now d srv =
     (Inr (Message ''status'' ''Server registered/updated'', 200),
      if list_ex (\<lambda>s. endpoint_eq s d) srv then refreshed now d srv
      else srv @ [d(''last_seen'' \<mapsto> PFloat now)])"
  using assms by (simp add: add_server_def update_loop_keyed has_required_keyed refreshed_absent)

lemma unique_filter_le1:
  "unique_endpoints srv \<Longrightarrow> length [s \<leftarrow> srv. endpoint_eq s d] \<le> 1"
proof (induction srv)
  case Nil
  then show ?case by simp
next
  case (Cons s ss)
  show ?case
  proof (cases "endpoint_eq s d")
    case True
    have "\<not> endpoint_eq x d" if "x \<in> set ss" for x
    proof
      assume "endpoint_eq x d"
      then have "endpoint_eq s x"
        using True endpoint_eq_sym endpoint_eq_trans by blast
      with that Cons.prems show False by (auto simp: list_ex_iff)
    qed
    then have "[x \<leftarrow> ss. endpoint_eq x d] = []" by (simp add: filter_empty_conv)
    with True show ?thesis by simp
  next
    case False
    with Cons show ?thesis by simp
  qed
qed

lemma set_refreshed:
  "x \<in> set (refreshed now d srv) \<Longrightarrow>
   x \<in> set srv \<or> (\<exists>s \<in> set srv. endpoint_eq s d \<and> x = refresh now d s)"
  by (induction srv) (auto split: if_splits)

lemma unique_refreshed:
  assumes "unique_endpoints srv" "keyed d"
  shows "unique_endpoints (refreshed now d srv)"
  using assms(1)
proof (induction srv)
  case Nil
  then show ?case by simp
next
  case (Cons s ss)
  show ?case
  proof (cases "endpoint_eq s d")
    case True
    have "\<not> endpoint_eq (refresh now d s) x" if "x \<in> set ss" for x
    proof
      assume "endpoint_eq (refresh now d s) x"
      then have "endpoint_eq d x" using assms(2) by (simp add: endpoint_eq_refresh_left)
      with True have "endpoint_eq s x" by (rule endpoint_eq_trans)
      with that Cons.prems show False by (auto simp: list_ex_iff)
    qed
    with True Cons.prems show ?thesis by (auto simp: list_ex_iff)
  next
    case False
    have "\<not> endpoint_eq s x" if "x \<in> set (refreshed now d ss)" for x
    proof
      assume sx: "endpoint_eq s x"
      from set_refreshed[OF that] show False
      proof
        assume "x \<in> set ss"
        with sx Cons.prems show False by (auto simp: list_ex_iff)
      next
        assume "\<exists>s' \<in> set ss. endpoint_eq s' d \<and> x = refresh now d s'"
        then obtain s' where "x = refresh now d s'" by blast
        with sx assms(2) have "endpoint_eq s d" by (simp add: endpoint_eq_refresh_right)
        with False show False by simp
      qed
    qed
    with False Cons show ?thesis by (auto simp: list_ex_iff)
  qed
qed

lemma unique_append:
  assumes "unique_endpoints srv" "\<not> list_ex (\<lambda>s. endpoint_eq s d) srv"
  shows "unique_endpoints (srv @ [d(''last_seen'' \<mapsto> v)])"
  using assms by (induction srv) (auto simp: list_ex_iff endpoint_eq_stamp_right)

lemma all_refreshed:
  "list_all (\<lambda>s. keyed s \<and> stamped s) srv \<Longrightarrow> keyed d \<Longrightarrow>
   list_all (\<lambda>s. keyed s \<and> stamped s) (refreshed now d srv)"
  by (induction srv) (simp_all add: keyed_refresh stamped_refresh)

lemma registry_inv_keyed: "registry_inv srv \<Longrightarrow> list_all keyed srv"
  by (simp add: registry_inv_def list_all_iff)

lemma registry_inv_add_server:
  assumes "registry_inv srv" "has_required d"
  shows "registry_inv (snd (add_server now d srv))"
proof -
  have k: "keyed d" using assms(2) by (rule has_required_keyed)
  have "keyed (d(''last_seen'' \<mapsto> PFloat now))" "stamped (d(''last_seen'' \<mapsto> PFloat now))"
    using k by (simp_all add: keyed_def stamped_def)
  then show ?thesis
    using assms k
    by (simp add: add_server_valid registry_inv_keyed)
       (simp add: registry_inv_def unique_refreshed unique_append all_refreshed)
qed

lemma filter_refreshed:
  assumes "unique_endpoints srv" "keyed d" "list_ex (\<lambda>s. endpoint_eq s d) srv"
  shows "\<exists>s \<in> set srv. [x \<leftarrow> refreshed now d srv. endpoint_eq x d] = [refresh now d s]"
  using assms(1,3)
proof (induction srv)
  case Nil
  then show ?case by simp
next
  case (Cons s ss)
  have dd: "endpoint_eq d d" using assms(2) by (rule endpoint_eq_refl)
  show ?case
  proof (cases "endpoint_eq s d")
    case True
    have "\<not> endpoint_eq x d" if "x \<in> set ss" for x
    proof
      assume "endpoint_eq x d"
      then have "endpoint_eq s x"
        using True endpoint_eq_sym endpoint_eq_trans by blast
      with that Cons.prems show False by (auto simp: list_ex_iff)
    qed
    then have "[x \<leftarrow> ss. endpoint_eq x d] = []" by (simp add: filter_empty_conv)
    with True dd assms(2) show ?thesis by (simp add: endpoint_eq_refresh_left)
  next
    case False
    with Cons show ?thesis by auto
  qed
qed

lemma filter_appended:
  assumes "keyed d" "\<not> list_ex (\<lambda>s. endpoint_eq s d) srv"
  shows "[x \<leftarrow> srv @ [d(''last_seen'' \<mapsto> v)]. endpoint_eq x d] = [d(''last_seen'' \<mapsto> v)]"
proof -
  have "[x \<leftarrow> srv. endpoint_eq x d] = []"
    using assms(2) by (simp add: filter_empty_conv list_ex_iff)
  then show ?thesis
    using assms(1) by (simp add: endpoint_eq_stamp_left endpoint_eq_refl)
qed

lemma refreshed_match:
  "x \<in> set (refreshed now d srv) \<Longrightarrow> endpoint_eq x d \<Longrightarrow> keyed d \<Longrightarrow> unique_endpoints srv \<Longrightarrow>
   list_ex (\<lambda>s. endpoint_eq s d) srv \<Longrightarrow>
   \<exists>s' \<in> set srv. endpoint_eq s' d \<and> x = refresh now d s'"
proof (induction srv)
  case Nil
  then show ?case by simp
next
  case (Cons s ss)
  show ?case
  proof (cases "endpoint_eq s d")
    case True
    have "\<not> endpoint_eq y d" if "y \<in> set ss" for y
    proof
      assume "endpoint_eq y d"
      then have "endpoint_eq s y"
        using True endpoint_eq_sym endpoint_eq_trans by blast
      with that Cons.prems show False by (auto simp: list_ex_iff)
    qed
    with True Cons.prems show ?thesis by auto
  next
    case False
    with Cons show ?thesis by auto
  qed
qed

lemma add_server_one_record:
  assumes "registry_inv srv" "has_required d"
  shows "\<exists>r. [x \<leftarrow> snd (add_server now d srv). endpoint_eq x d] = [r] \<and>
     (r = d(''last_seen'' \<mapsto> PFloat now) \<or>
      (\<exists>s \<in> set srv. endpoint_eq s d \<and> r = (s ++ d)(''last_seen'' \<mapsto> PFloat now)))"
proof (cases "list_ex (\<lambda>s. endpoint_eq s d) srv")
  case True
  have k: "keyed d" using assms(2) by (rule has_required_keyed)
  from assms(1) have u: "unique_endpoints srv" by (simp add: registry_inv_def)
  have "[x \<leftarrow> srv. endpoint_eq x d] \<noteq> []"
    using True by (simp add: filter_empty_conv list_ex_iff)
  moreover have "length [x \<leftarrow> srv. endpoint_eq x d] \<le> 1"
    using u by (rule unique_filter_le1)
  ultimately obtain s0 where s0: "[x \<leftarrow> srv. endpoint_eq x d] = [s0]"
    by (cases "[x \<leftarrow> srv. endpoint_eq x d]") auto
  from filter_refreshed[OF u k True, of now]
  obtain s where s: "s \<in> set srv" "[x \<leftarrow> refreshed now d srv. endpoint_eq x d] = [refresh now d s]"
    by blast
  have "refresh now d s \<in> set [x \<leftarrow> refreshed now d srv. endpoint_eq x d]"
    using s(2) by simp
  then have "refresh now d s \<in> set (refreshed now d srv)" "endpoint_eq (refresh now d s) d"
    by simp_all
  then have "\<exists>s' \<in> set srv. endpoint_eq s' d \<and> refresh now d s = refresh now d s'"
    using True k u by (intro refreshed_match)
  then show ?thesis
    using assms True s(2)
    by (auto simp: add_server_valid registry_inv_keyed refresh_def)
next
  case False
  have k: "keyed d" using assms(2) by (rule has_required_keyed)
  show ?thesis
    using assms False filter_appended[OF k False]
    by (simp add: add_server_valid registry_inv_keyed)
qed

lemma record_fields:
  assumes "r = d(''last_seen'' \<mapsto> PFloat now) \<or>
      (\<exists>s \<in> set srv. endpoint_eq s d \<and> r = (s ++ d)(''last_seen'' \<mapsto> PFloat now))"
  shows "r ''last_seen'' = Some (PFloat now)"
    and "k \<noteq> ''last_seen'' \<Longrightarrow> d k \<noteq> None \<Longrightarrow> r k = d k"
  using assms by (auto simp: map_add_def split: option.splits)

lemma announce_all_snoc:
  "announce_all (cs @ [c]) srv = snd (add_server (fst c) (snd c) (announce_all cs srv))"
  by (induction cs arbitrary: srv) simp_all

lemma registry_inv_announce_all:
  "registry_inv srv \<Longrightarrow> \<forall>c \<in> set cs. has_required (snd c) \<Longrightarrow>
   registry_inv (announce_all cs srv)"
  by (induction cs arbitrary: srv) (simp_all add: registry_inv_add_server)

lemma registry_inv_stamped: "registry_inv srv \<Longrightarrow> list_all stamped srv"
  by (simp add: registry_inv_def list_all_iff)

lemma get_servers_inv:
  "registry_inv srv \<Longrightarrow>
   get_servers now srv = (Inr (Records [s \<leftarrow> srv. now - last_seen s < 60], 200), srv)"
  by (simp add: get_servers_def fresh_servers_filter registry_inv_stamped)

subsection \<open>One record per endpoint\<close>

text \<open>
  Claim C1. Start from a store that satisfies the invariant of the registry (the empty
  store does, and every accepted announce keeps it) and run a non-empty sequence of
  announces that all have the four required fields and all name the same
  \<^verbatim>\<open>(public_ip, port)\<close> pair, in the sense of the test of line 19. Then after every
  prefix of the sequence the store has at most one record for that pair, and a listing
  taken within the 60 seconds that follow the last announce has exactly one record for
  the pair, which carries the \<^verbatim>\<open>name\<close> and \<^verbatim>\<open>map\<close> of the last payload and the clock
  value of the last announce as \<^verbatim>\<open>last_seen\<close>.
\<close>

theorem announce_same_endpoint_one_record:
  assumes "registry_inv srv" and "calls \<noteq> []"
    and "\<forall>c \<in> set calls. has_required (snd c) \<and> endpoint_eq (snd c) (snd (last calls))"
    and "now - fst (last calls) < 60"
  shows "(\<forall>n \<le> length calls.
            length [s \<leftarrow> announce_all (take n calls) srv. endpoint_eq s (snd (last calls))] \<le> 1) \<and>
         (\<exists>live r.
            fst (get_servers now (announce_all calls srv)) = Inr (Records live, 200) \<and>
            [s \<leftarrow> live. endpoint_eq s (snd (last calls))] = [r] \<and>
            r ''name'' = snd (last calls) ''name'' \<and>
            r ''map'' = snd (last calls) ''map'' \<and>
            r ''last_seen'' = Some (PFloat (fst (last calls))))"
proof (intro conjI allI impI)
  fix n assume "n \<le> length calls"
  have "\<forall>c \<in> set (take n calls). has_required (snd c)"
    using assms(3) by (meson in_set_takeD)
  then have "registry_inv (announce_all (take n calls) srv)"
    using assms(1) by (simp add: registry_inv_announce_all)
  then have "unique_endpoints (announce_all (take n calls) srv)"
    by (simp add: registry_inv_def)
  then show "length [s \<leftarrow> announce_all (take n calls) srv. endpoint_eq s (snd (last calls))] \<le> 1"
    by (rule unique_filter_le1)
next
  define cs where "cs = butlast calls"
  define t where "t = fst (last calls)"
  define d where "d = snd (last calls)"
  have calls: "calls = cs @ [(t, d)]"
    using assms(2) by (simp add: cs_def t_def d_def)
  have req: "has_required d" using assms(2,3) by (simp add: d_def)
  have "\<forall>c \<in> set cs. has_required (snd c)"
    using assms(3) by (auto simp: cs_def dest: in_set_butlastD)
  then have inv: "registry_inv (announce_all cs srv)"
    using assms(1) by (simp add: registry_inv_announce_all)
  have final: "announce_all calls srv = snd (add_server t d (announce_all cs srv))"
    by (simp add: calls announce_all_snoc)
  from add_server_one_record[OF inv req, of t]
  obtain r where r: "[x \<leftarrow> announce_all calls srv. endpoint_eq x d] = [r]"
    and src: "r = d(''last_seen'' \<mapsto> PFloat t) \<or>
      (\<exists>s \<in> set (announce_all cs srv). endpoint_eq s d \<and> r = (s ++ d)(''last_seen'' \<mapsto> PFloat t))"
    unfolding final by blast
  have seen: "r ''last_seen'' = Some (PFloat t)" using src by (rule record_fields(1))
  have nm: "r ''name'' = d ''name''" "r ''map'' = d ''map''"
    using req by (auto intro!: record_fields(2)[OF src] simp: has_required_def required_fields_def)
  have inv': "registry_inv (announce_all calls srv)"
    unfolding final using inv req by (rule registry_inv_add_server)
  have "now - last_seen r < 60"
    using seen assms(4) by (simp add: last_seen_def t_def)
  then have "[s \<leftarrow> [s \<leftarrow> announce_all calls srv. now - last_seen s < 60]. endpoint_eq s d] = [r]"
    using r by (simp add: conj_commute flip: filter_filter[of "\<lambda>s. now - last_seen s < 60"])
  then show "\<exists>live r.
            fst (get_servers now (announce_all calls srv)) = Inr (Records live, 200) \<and>
            [s \<leftarrow> live. endpoint_eq s (snd (last calls))] = [r] \<and>
            r ''name'' = snd (last calls) ''name'' \<and>
            r ''map'' = snd (last calls) ''map'' \<and>
            r ''last_seen'' = Some (PFloat (fst (last calls)))"
    using seen nm by (simp add: get_servers_inv[OF inv'] d_def t_def)
qed

theorem announce_same_endpoint_one_record_witness:
  "registry_inv [] \<and> [(100, alpha), (130, beta)] \<noteq> [] \<and>
   has_required alpha \<and> has_required beta \<and> endpoint_eq alpha beta \<and> (150::real) - 130 < 60 \<and>
   length [s \<leftarrow> announce_all (take 1 [(100, alpha), (130, beta)]) []. endpoint_eq s beta] \<le> 1 \<and>
   (\<exists>live r.
      fst (get_servers 150 (announce_all [(100, alpha), (130, beta)] [])) = Inr (Records live, 200) \<and>
      [s \<leftarrow> live. endpoint_eq s beta] = [r] \<and>
      r ''name'' = Some (PStr ''Beta'') \<and> r ''map'' = Some (PStr ''Canals'') \<and>
      r ''last_seen'' = Some (PFloat 130))"
proof -
  have h: "has_required alpha" "has_required beta" "endpoint_eq alpha beta" "endpoint_eq beta beta"
    by (simp_all add: has_required_def required_fields_def endpoint_eq_def same_endpoint_def
        subscript_def py_eq_def alpha_def beta_def)
  have b: "beta ''name'' = Some (PStr ''Beta'')" "beta ''map'' = Some (PStr ''Canals'')"
    by (simp_all add: beta_def)
  have i: "registry_inv []" by (simp add: registry_inv_def)
  have c: "(\<forall>n \<le> length [(100::real, alpha), (130, beta)].
            length [s \<leftarrow> announce_all (take n [(100, alpha), (130, beta)]) []. endpoint_eq s beta] \<le> 1) \<and>
         (\<exists>live r.
            fst (get_servers 150 (announce_all [(100, alpha), (130, beta)] [])) = Inr (Records live, 200) \<and>
            [s \<leftarrow> live. endpoint_eq s beta] = [r] \<and>
            r ''name'' = beta ''name'' \<and> r ''map'' = beta ''map'' \<and>
            r ''last_seen'' = Some (PFloat 130))"
    using announce_same_endpoint_one_record[of "[]" "[(100, alpha), (130, beta)]" 150] h i
    by simp
  from c have "1 \<le> length [(100::real, alpha), (130, beta)] \<longrightarrow>
     length [s \<leftarrow> announce_all (take 1 [(100, alpha), (130, beta)]) []. endpoint_eq s beta] \<le> 1"
    by blast
  then have one: "length [s \<leftarrow> announce_all (take 1 [(100, alpha), (130, beta)]) []. endpoint_eq s beta] \<le> 1"
    by simp
  show ?thesis using c one h i b by simp
qed

subsection \<open>The liveness window\<close>

text \<open>
  Claim C2. On a store whose records carry the timestamp \<^verbatim>\<open>add_server\<close> writes, the
  listing at time \<open>now\<close> is exactly the list of the stored records with
  \<open>now - last_seen < 60\<close>, in the order of the store: a record last seen 61 seconds ago
  is absent, one last seen 59 seconds ago is present, and one last seen exactly 60 seconds
  ago is absent, the comparison being strict.
\<close>

theorem get_servers_window:
  assumes "list_all stamped srv"
  shows "fst (get_servers now srv) = Inr (Records [s \<leftarrow> srv. now - last_seen s < 60], 200) \<and>
    (\<forall>s \<in> set srv.
       (last_seen s = now - 61 \<longrightarrow> s \<notin> set [s \<leftarrow> srv. now - last_seen s < 60]) \<and>
       (last_seen s = now - 59 \<longrightarrow> s \<in> set [s \<leftarrow> srv. now - last_seen s < 60]) \<and>
       (last_seen s = now - 60 \<longrightarrow> s \<notin> set [s \<leftarrow> srv. now - last_seen s < 60]))"
  using assms by (simp add: get_servers_def fresh_servers_filter)

theorem get_servers_window_witness:
  "list_all stamped [aged 39, aged 41, aged 40] \<and>
   fst (get_servers 100 [aged 39, aged 41, aged 40]) = Inr (Records [aged 41], 200)"
proof -
  have s: "list_all stamped [aged 39, aged 41, aged 40]"
    by (simp add: stamped_def aged_def)
  have l: "last_seen (aged 39) = 39" "last_seen (aged 41) = 41" "last_seen (aged 40) = 40"
    by (simp_all add: last_seen_def aged_def)
  show ?thesis
    using get_servers_window[OF s, of 100] s l by simp
qed

subsection \<open>Listing reads only\<close>

text \<open>
  Claim C9. Whatever the store and the time of the request, and also when the listing
  raises, \<^verbatim>\<open>get_servers\<close> leaves the store as it found it: every record, and so every
  \<^verbatim>\<open>last_seen\<close>, is unchanged.
\<close>

theorem get_servers_read_only: "snd (get_servers now srv) = srv"
  by (simp add: get_servers_def split: sum.splits)

subsection \<open>Validation of an announce\<close>

text \<open>
  Claim C3, as the code has it. \<^verbatim>\<open>add_server\<close> answers 400 exactly when one of the four
  required fields is absent from the payload; the value of \<^verbatim>\<open>port\<close> is never inspected,
  so an announce with all four fields is accepted against a store of keyed records
  whatever its port. Whenever the answer is not 200 (a 400, or an escaped exception) the
  store is unchanged.
\<close>

theorem add_server_validation:
  "(status_of (fst (add_server now d srv)) = Some 400) = (\<not> has_required d) \<and>
   (status_of (fst (add_server now d srv)) \<noteq> Some 200 \<longrightarrow> snd (add_server now d srv) = srv) \<and>
   (has_required d \<and> list_all keyed srv \<longrightarrow> status_of (fst (add_server now d srv)) = Some 200)"
  by (auto simp: add_server_def status_of_def update_loop_keyed has_required_keyed
      split: sum.splits prod.splits)

theorem add_server_validation_witness:
  "\<not> has_required no_port \<and> status_of (fst (add_server 100 no_port [aged 41])) = Some 400 \<and>
   snd (add_server 100 no_port [aged 41]) = [aged 41] \<and>
   has_required zero_port \<and> list_all keyed [aged 41] \<and>
   status_of (fst (add_server 100 zero_port [aged 41])) = Some 200"
proof -
  have h: "\<not> has_required no_port" "has_required zero_port" "list_all keyed [aged 41]"
    by (simp_all add: has_required_def required_fields_def no_port_def zero_port_def alpha_def
        keyed_def aged_def)
  have "status_of (fst (add_server 100 no_port [aged 41])) = Some 400"
    using add_server_validation[of 100 no_port "[aged 41]"] h by simp
  moreover from this have "snd (add_server 100 no_port [aged 41]) = [aged 41]"
    using add_server_validation[of 100 no_port "[aged 41]"] by simp
  moreover have "status_of (fst (add_server 100 zero_port [aged 41])) = Some 200"
    using add_server_validation[of 100 zero_port "[aged 41]"] h by simp
  ultimately show ?thesis using h by simp
qed

text \<open>
  The claim as written also asks for a 400 when the port is not a positive integer. A
  payload with all four fields and port 0 is answered 200 and stored.
\<close>

theorem add_server_port_unchecked:
  "has_required zero_port \<and> zero_port ''port'' = Some (PInt 0) \<and>
   status_of (fst (add_server 100 zero_port [])) = Some 200 \<and>
   snd (add_server 100 zero_port []) = [zero_port(''last_seen'' \<mapsto> PFloat 100)]"
  by (simp add: add_server_def has_required_def required_fields_def zero_port_def alpha_def
      status_of_def)

subsection \<open>No whitelist of fields\<close>

text \<open>
  Claim C10, as the code has it. An accepted announce leaves exactly one record for its
  endpoint. That record holds every field of the payload other than \<^verbatim>\<open>last_seen\<close> with
  the payload's value, and the clock value as \<^verbatim>\<open>last_seen\<close>; it is either the payload
  with the timestamp added, or an existing record of the same endpoint into which the
  payload was merged, the fields the payload lacks being kept. A listing within the next
  60 seconds returns stored records only, this one among them, with all its fields.
\<close>

theorem add_server_keeps_payload_fields:
  assumes "registry_inv srv" and "has_required d" and "now' - now < 60"
  shows "\<exists>r live.
     status_of (fst (add_server now d srv)) = Some 200 \<and>
     [x \<leftarrow> snd (add_server now d srv). endpoint_eq x d] = [r] \<and>
     (\<forall>k. k \<noteq> ''last_seen'' \<longrightarrow> d k \<noteq> None \<longrightarrow> r k = d k) \<and>
     r ''last_seen'' = Some (PFloat now) \<and>
     (r = d(''last_seen'' \<mapsto> PFloat now) \<or>
      (\<exists>s \<in> set srv. endpoint_eq s d \<and> r = (s ++ d)(''last_seen'' \<mapsto> PFloat now))) \<and>
     fst (get_servers now' (snd (add_server now d srv))) = Inr (Records live, 200) \<and>
     r \<in> set live \<and> set live \<subseteq> set (snd (add_server now d srv))"
proof -
  from add_server_one_record[OF assms(1,2), of now]
  obtain r where r: "[x \<leftarrow> snd (add_server now d srv). endpoint_eq x d] = [r]"
    and src: "r = d(''last_seen'' \<mapsto> PFloat now) \<or>
      (\<exists>s \<in> set srv. endpoint_eq s d \<and> r = (s ++ d)(''last_seen'' \<mapsto> PFloat now))"
    by blast
  have seen: "r ''last_seen'' = Some (PFloat now)" using src by (rule record_fields(1))
  have fields: "\<forall>k. k \<noteq> ''last_seen'' \<longrightarrow> d k \<noteq> None \<longrightarrow> r k = d k"
    using record_fields(2)[OF src] by blast
  have inv': "registry_inv (snd (add_server now d srv))"
    using assms(1,2) by (rule registry_inv_add_server)
  have "r \<in> set [x \<leftarrow> snd (add_server now d srv). endpoint_eq x d]" using r by simp
  then have mem: "r \<in> set (snd (add_server now d srv))" by simp
  have "now' - last_seen r < 60" using seen assms(3) by (simp add: last_seen_def)
  with mem have live: "r \<in> set [s \<leftarrow> snd (add_server now d srv). now' - last_seen s < 60]"
    by simp
  have ok: "status_of (fst (add_server now d srv)) = Some 200"
    using assms(1,2) by (simp add: add_server_valid registry_inv_keyed status_of_def)
  show ?thesis
    using r src seen fields live ok
    by (intro exI[of _ r] exI[of _ "[s \<leftarrow> snd (add_server now d srv). now' - last_seen s < 60]"])
       (simp add: get_servers_inv[OF inv'])
qed

theorem add_server_keeps_payload_fields_witness:
  "registry_inv [aged 41] \<and> has_required gamma \<and> (150::real) - 130 < 60 \<and>
   (\<exists>r live.
      status_of (fst (add_server 130 gamma [aged 41])) = Some 200 \<and>
      [x \<leftarrow> snd (add_server 130 gamma [aged 41]). endpoint_eq x gamma] = [r] \<and>
      r ''mode'' = Some (PStr ''koth'') \<and> r ''name'' = Some (PStr ''Beta'') \<and>
      r ''last_seen'' = Some (PFloat 130) \<and>
      fst (get_servers 150 (snd (add_server 130 gamma [aged 41]))) = Inr (Records live, 200) \<and>
      r \<in> set live)"
proof -
  have i: "registry_inv [aged 41]"
    by (simp add: registry_inv_def keyed_def stamped_def aged_def alpha_def)
  have h: "has_required gamma"
    by (simp add: has_required_def required_fields_def gamma_def beta_def)
  have t: "(150::real) - 130 < 60" by simp
  have g: "gamma ''mode'' = Some (PStr ''koth'')" "gamma ''name'' = Some (PStr ''Beta'')"
    by (simp_all add: gamma_def beta_def)
  from add_server_keeps_payload_fields[OF i h t]
  obtain r live where
    "status_of (fst (add_server 130 gamma [aged 41])) = Some 200"
    "[x \<leftarrow> snd (add_server 130 gamma [aged 41]). endpoint_eq x gamma] = [r]"
    "\<forall>k. k \<noteq> ''last_seen'' \<longrightarrow> gamma k \<noteq> None \<longrightarrow> r k = gamma k"
    "r ''last_seen'' = Some (PFloat 130)"
    "fst (get_servers 150 (snd (add_server 130 gamma [aged 41]))) = Inr (Records live, 200)"
    "r \<in> set live"
    by blast
  moreover from this(3) g have "r ''mode'' = Some (PStr ''koth'')" "r ''name'' = Some (PStr ''Beta'')"
    by simp_all
  ultimately show ?thesis using i h t by blast
qed

text \<open>
  The claim as written has every payload field stored verbatim. A payload field named
  \<^verbatim>\<open>last_seen\<close> is not: the server's clock value replaces it.
\<close>

theorem add_server_overwrites_last_seen:
  "has_required stale \<and> stale ''last_seen'' = Some (PInt 0) \<and>
   status_of (fst (add_server 100 stale [])) = Some 200 \<and>
   map (\<lambda>r. r ''last_seen'') (snd (add_server 100 stale [])) = [Some (PFloat 100)]"
  by (simp add: add_server_def has_required_def required_fields_def stale_def alpha_def
      status_of_def)

section \<open>Properties of the desktop client\<close>

subsection \<open>Host path and guest path\<close>

text \<open>
  Claim C5, as the code has it. With an executable at hand, the host path is taken exactly
  when the password dialog was confirmed and the text entered equals the stored password.
  On the host path the server process is created with the fixed arguments; when that
  succeeds, the 10 second sleep follows and then the client is created for the local
  address: two processes, in that order, when both creations succeed. In every other case
  (another password, or a cancelled dialog) the only creation attempted is the client for
  the public address, and no server. A creation that raises is shown as a launch error
  and ends the launch: nothing is created after it.
\<close>

theorem launch_selected_paths:
  assumes "exe \<noteq> []"
  shows "(ok \<and> pw = password cfg \<longrightarrow>
           (popen (server_args exe cfg) = None \<and>
            popen (join_args exe (local_ip cfg) (port cfg)) = None \<longrightarrow>
              launch_selected cfg (Some exe) pw ok popen =
                [Popen (server_args exe cfg), Sleep 10,
                 Popen (join_args exe (local_ip cfg) (port cfg))]) \<and>
           (\<forall>e. popen (server_args exe cfg) = Some e \<longrightarrow>
              launch_selected cfg (Some exe) pw ok popen = [Critical ''Launch Error'' e]) \<and>
           (\<forall>e. popen (server_args exe cfg) = None \<and>
                popen (join_args exe (local_ip cfg) (port cfg)) = Some e \<longrightarrow>
              launch_selected cfg (Some exe) pw ok popen =
                [Popen (server_args exe cfg), Sleep 10, Critical ''Launch Error'' e])) \<and>
         (\<not> (ok \<and> pw = password cfg) \<longrightarrow>
           (popen (join_args exe (public_ip cfg) (port cfg)) = None \<longrightarrow>
              launch_selected cfg (Some exe) pw ok popen =
                [Popen (join_args exe (public_ip cfg) (port cfg))]) \<and>
           (\<forall>e. popen (join_args exe (public_ip cfg) (port cfg)) = Some e \<longrightarrow>
              launch_selected cfg (Some exe) pw ok popen = [Critical ''Launch Error'' e]))"
  using assms by (auto simp: launch_selected_def)

theorem launch_selected_paths_witness:
  "''game.exe'' \<noteq> [] \<and> password jacinto = ''abc'' \<and>
   launch_selected jacinto (Some ''game.exe'') ''abc'' True spawn_ok =
     [Popen [''game.exe'', ''server'', ''District.gear?game=koth?MaxPlayers=10?bots=6?'',
             ''-port=7777'', ''-useallavailablecores'', ''-log''],
      Sleep 10,
      Popen [''game.exe'', ''192.168.0.2:7777'']] \<and>
   launch_selected jacinto (Some ''game.exe'') [] True spawn_ok =
     [Popen [''game.exe'', ''1.2.3.4:7777'']]"
proof -
  have a: "server_args ''game.exe'' jacinto =
      [''game.exe'', ''server'', ''District.gear?game=koth?MaxPlayers=10?bots=6?'',
       ''-port=7777'', ''-useallavailablecores'', ''-log'']"
    "join_args ''game.exe'' (local_ip jacinto) (port jacinto) = [''game.exe'', ''192.168.0.2:7777'']"
    "join_args ''game.exe'' (public_ip jacinto) (port jacinto) = [''game.exe'', ''1.2.3.4:7777'']"
    by (simp_all add: server_args_def join_args_def jacinto_def str_int_def str_nat.simps
        digit_chars_def)
  have p: "password jacinto = ''abc''" by (simp add: jacinto_def)
  show ?thesis
    using launch_selected_paths[of "''game.exe''" True "''abc''" jacinto spawn_ok]
      launch_selected_paths[of "''game.exe''" True "[]" jacinto spawn_ok]
    by (simp add: a p spawn_ok_def)
qed

text \<open>
  The claim as written promises two processes whenever the passwords are equal. With
  equal passwords and a process creation that raises, none is created; and a cancelled
  dialog, whose text is empty, takes the guest path against an empty stored password.
\<close>

theorem launch_selected_spawn_refused:
  "password jacinto = ''abc'' \<and>
   launch_selected jacinto (Some ''game.exe'') ''abc'' True spawn_refused =
     [Critical ''Launch Error'' ''[WinError 2] The system cannot find the file specified''] \<and>
   length (filter is_Popen (launch_selected jacinto (Some ''game.exe'') ''abc'' True spawn_refused)) = 0 \<and>
   password azura = [] \<and>
   launch_selected azura (Some ''game.exe'') [] False spawn_ok =
     [Popen [''game.exe'', ''1.2.3.4:7778'']]"
  by (simp add: launch_selected_def spawn_refused_def spawn_ok_def jacinto_def azura_def
      join_args_def str_int_def str_nat.simps digit_chars_def)

subsection \<open>The states of the heartbeat menu\<close>

lemma gui_inv_init: "gui_inv gui_init"
  by (simp add: gui_inv_def gui_init_def)

lemma stop_loop_fired: "fst (stop_loop evs f a) = f \<union> set evs"
  by (induction evs f a rule: stop_loop.induct) auto

lemma stop_loop_any: "snd (stop_loop evs f a) = (a \<or> (\<exists>e \<in> set evs. e \<notin> f))"
  by (induction evs f a rule: stop_loop.induct) auto

lemma set_update_cases:
  "e \<in> set (AList.update k v al) \<Longrightarrow> e = (k, v) \<or> e \<in> set al"
  by (induction al) (auto split: if_splits)

lemma gui_inv_start_thread:
  assumes inv: "gui_inv st" and may: "may_start host st"
  shows "gui_inv (start_thread host st)"
proof -
  let ?ev = "next_event st"
  let ?st = "start_thread host st"
  have thr: "threads ?st = threads st @ [(host, ?ev)]"
    and tab: "hb_threads ?st = AList.update (host_id host) ?ev (hb_threads st)"
    and fir: "fired ?st = fired st - {?ev}"
    and nxt: "next_event ?st = Suc ?ev"
    by (simp_all add: start_thread_def Let_def)
  from inv have d: "distinct (map snd (threads st))"
    and b1: "\<forall>t \<in> set (threads st). snd t < ?ev"
    and b2: "\<forall>e \<in> set (hb_threads st). snd e < ?ev"
    and i3: "\<forall>t \<in> set (threads st). snd t \<in> fired st \<or>
               map_of (hb_threads st) (host_id (fst t)) = Some (snd t)"
    and i4: "\<forall>e \<in> set (hb_threads st). snd e \<in> fired st \<or>
               (\<exists>t \<in> set (threads st). snd t = snd e \<and> host_id (fst t) = fst e)"
    by (simp_all add: gui_inv_def list_all_iff list_ex_iff)
  have c1: "distinct (map snd (threads ?st))"
    using d b1 by (auto simp: thr)
  have c2: "\<forall>t \<in> set (threads ?st). snd t < next_event ?st"
    using b1 by (auto simp: thr nxt less_Suc_eq)
  have c3: "\<forall>e \<in> set (hb_threads ?st). snd e < next_event ?st"
    using b2 by (auto simp: tab nxt less_Suc_eq dest!: set_update_cases)
  have c4: "\<forall>t \<in> set (threads ?st). snd t \<in> fired ?st \<or>
               map_of (hb_threads ?st) (host_id (fst t)) = Some (snd t)"
  proof
    fix t assume "t \<in> set (threads ?st)"
    then consider "t = (host, ?ev)" | "t \<in> set (threads st)" by (auto simp: thr)
    then show "snd t \<in> fired ?st \<or> map_of (hb_threads ?st) (host_id (fst t)) = Some (snd t)"
    proof cases
      case 1
      then show ?thesis by (simp add: tab update_conv')
    next
      case 2
      with b1 have ne: "snd t \<noteq> ?ev" by auto
      from i3 2 have "snd t \<in> fired st \<or> map_of (hb_threads st) (host_id (fst t)) = Some (snd t)"
        by blast
      then show ?thesis
      proof (cases "snd t \<in> fired st")
        case True
        with ne show ?thesis by (simp add: fir)
      next
        case False
        moreover assume "snd t \<in> fired st \<or> map_of (hb_threads st) (host_id (fst t)) = Some (snd t)"
        ultimately have m: "map_of (hb_threads st) (host_id (fst t)) = Some (snd t)" by blast
        with False may have "host_id (fst t) \<noteq> host_id host"
          by (auto simp: may_start_def)
        with m show ?thesis by (simp add: tab update_conv')
      qed
    qed
  qed
  have c5: "\<forall>e \<in> set (hb_threads ?st). snd e \<in> fired ?st \<or>
               (\<exists>t \<in> set (threads ?st). snd t = snd e \<and> host_id (fst t) = fst e)"
  proof
    fix e assume "e \<in> set (hb_threads ?st)"
    then consider "e = (host_id host, ?ev)" | "e \<in> set (hb_threads st)"
      using set_update_cases by (fastforce simp: tab)
    then show "snd e \<in> fired ?st \<or>
               (\<exists>t \<in> set (threads ?st). snd t = snd e \<and> host_id (fst t) = fst e)"
    proof cases
      case 1
      then show ?thesis by (simp add: thr)
    next
      case 2
      with b2 have "snd e \<noteq> ?ev" by auto
      with 2 i4 show ?thesis by (auto simp: fir thr)
    qed
  qed
  show ?thesis
    using c1 c2 c3 c4 c5 by (simp add: gui_inv_def list_all_iff list_ex_iff)
qed

lemma manual_start_heartbeat_cases:
  assumes "0 \<le> idx" "nat idx < length hosts"
  shows "manual_start_heartbeat idx hosts st =
     (if may_start (hosts ! nat idx) st then (Inr Started, start_thread (hosts ! nat idx) st)
      else (Inr AlreadyRunning, st))"
  using assms by (simp add: manual_start_heartbeat_def may_start_def Let_def split: option.splits)

lemma gui_inv_manual_start_heartbeat:
  "gui_inv st \<Longrightarrow> gui_inv (snd (manual_start_heartbeat idx hosts st))"
proof (cases "0 \<le> idx \<and> nat idx < length hosts")
  case True
  assume "gui_inv st"
  with True show ?thesis
    by (simp add: manual_start_heartbeat_cases gui_inv_start_thread)
next
  case False
  assume "gui_inv st"
  with False show ?thesis
    by (auto simp: manual_start_heartbeat_def)
qed

lemma manual_stop_heartbeat_state:
  "snd (manual_stop_heartbeat st) =
     st\<lparr>fired := fired st \<union> snd ` set (hb_threads st), hb_threads := [],
        colors := colors st @ (if \<exists>e \<in> set (hb_threads st). snd e \<notin> fired st then [''red''] else [])\<rparr>"
  using stop_loop_fired[of "map snd (hb_threads st)" "fired st" False]
        stop_loop_any[of "map snd (hb_threads st)" "fired st" False]
  by (cases "stop_loop (map snd (hb_threads st)) (fired st) False")
     (auto simp: manual_stop_heartbeat_def)

lemma manual_stop_heartbeat_result:
  "fst (manual_stop_heartbeat st) =
     (if \<exists>e \<in> set (hb_threads st). snd e \<notin> fired st then AllStopped else NoActiveHeartbeat)"
  using stop_loop_any[of "map snd (hb_threads st)" "fired st" False]
  by (cases "stop_loop (map snd (hb_threads st)) (fired st) False")
     (auto simp: manual_stop_heartbeat_def)

lemma gui_inv_manual_stop_heartbeat:
  assumes "gui_inv st"
  shows "gui_inv (snd (manual_stop_heartbeat st))"
proof -
  have "snd t \<in> snd ` set (hb_threads st)"
    if "map_of (hb_threads st) (host_id (fst t)) = Some (snd t)" for t :: "Host \<times> nat"
    using map_of_SomeD[OF that] by force
  then show ?thesis
    using assms
    by (auto simp: manual_stop_heartbeat_state gui_inv_def list_all_iff)
qed

lemma stopped_none_running:
  assumes "gui_inv st"
  shows "running_loops (snd (manual_stop_heartbeat st)) i = []"
proof -
  have "snd t \<in> snd ` set (hb_threads st)"
    if "map_of (hb_threads st) (host_id (fst t)) = Some (snd t)" for t :: "Host \<times> nat"
    using map_of_SomeD[OF that] by force
  then show ?thesis
    using assms
    by (auto simp: manual_stop_heartbeat_state gui_inv_def list_all_iff running_loops_def
        filter_empty_conv)
qed

lemma filter_key_single:
  "distinct (map f xs) \<Longrightarrow> x \<in> set xs \<Longrightarrow> [y \<leftarrow> xs. f y = f x] = [x]"
proof (induction xs)
  case Nil
  then show ?case by simp
next
  case (Cons a xs)
  show ?case
  proof (cases "a = x")
    case True
    have "f x \<notin> f ` set xs" using Cons.prems True by simp
    then have "[y \<leftarrow> xs. f y = f x] = []"
      by (auto simp: filter_empty_conv image_iff)
    with True show ?thesis by simp
  next
    case False
    with Cons have "f a \<noteq> f x" by auto
    with Cons False show ?thesis by simp
  qed
qed

lemma running_when_tracked:
  assumes inv: "gui_inv st"
    and tab: "map_of (hb_threads st) i = Some ev" and live: "ev \<notin> fired st"
  shows "length (running_loops st i) = 1"
proof -
  from inv have d: "distinct (map snd (threads st))"
    and i3: "\<forall>t \<in> set (threads st). snd t \<in> fired st \<or>
               map_of (hb_threads st) (host_id (fst t)) = Some (snd t)"
    and i4: "\<forall>e \<in> set (hb_threads st). snd e \<in> fired st \<or>
               (\<exists>t \<in> set (threads st). snd t = snd e \<and> host_id (fst t) = fst e)"
    by (simp_all add: gui_inv_def list_all_iff list_ex_iff)
  from tab have "(i, ev) \<in> set (hb_threads st)" by (rule map_of_SomeD)
  with i4 live obtain t0 where t0: "t0 \<in> set (threads st)" "snd t0 = ev" "host_id (fst t0) = i"
    by fastforce
  have "(host_id (fst t) = i \<and> snd t \<notin> fired st) = (snd t = snd t0)"
    if "t \<in> set (threads st)" for t
  proof
    assume "host_id (fst t) = i \<and> snd t \<notin> fired st"
    with i3 that tab t0 show "snd t = snd t0" by auto
  next
    assume e: "snd t = snd t0"
    have "inj_on snd (set (threads st))" using d by (simp add: distinct_map)
    with e that t0(1) have "t = t0" by (auto dest: inj_onD)
    with t0 live show "host_id (fst t) = i \<and> snd t \<notin> fired st" by simp
  qed
  then have "running_loops st i = [t \<leftarrow> threads st. snd t = snd t0]"
    unfolding running_loops_def by (intro filter_cong) auto
  also have "\<dots> = [t0]" using d t0(1) by (rule filter_key_single)
  finally show ?thesis by simp
qed

subsection \<open>Starting a heartbeat twice\<close>

text \<open>
  Claim C6. In a state the menu actions can reach, start the heartbeat for a selected
  host, and start it again for a selection of the same host id with no stop in between.
  The second call shows \<^verbatim>\<open>Already Running\<close>, leaves the state as the first call left
  it, and exactly one loop is running for that id afterwards.
\<close>

theorem manual_start_heartbeat_twice:
  assumes "gui_inv st"
    and "0 \<le> idx" and "nat idx < length hosts"
    and "0 \<le> idx'" and "nat idx' < length hosts'"
    and "host_id (hosts' ! nat idx') = host_id (hosts ! nat idx)"
  shows "fst (manual_start_heartbeat idx' hosts' (snd (manual_start_heartbeat idx hosts st)))
           = Inr AlreadyRunning \<and>
         snd (manual_start_heartbeat idx' hosts' (snd (manual_start_heartbeat idx hosts st)))
           = snd (manual_start_heartbeat idx hosts st) \<and>
         length (running_loops
            (snd (manual_start_heartbeat idx' hosts' (snd (manual_start_heartbeat idx hosts st))))
            (host_id (hosts ! nat idx))) = 1"
proof -
  define host where "host = hosts ! nat idx"
  define st1 where "st1 = snd (manual_start_heartbeat idx hosts st)"
  have inv1: "gui_inv st1"
    unfolding st1_def using assms(1) by (rule gui_inv_manual_start_heartbeat)
  have "\<exists>ev. map_of (hb_threads st1) (host_id host) = Some ev \<and> ev \<notin> fired st1"
  proof (cases "may_start host st")
    case True
    then have "st1 = start_thread host st"
      using assms(2,3) by (simp add: st1_def host_def manual_start_heartbeat_cases)
    then show ?thesis by (simp add: start_thread_def Let_def update_conv')
  next
    case False
    then have "st1 = st"
      using assms(2,3) by (simp add: st1_def host_def manual_start_heartbeat_cases)
    with False show ?thesis by (auto simp: may_start_def split: option.splits)
  qed
  then obtain ev where ev: "map_of (hb_threads st1) (host_id host) = Some ev" "ev \<notin> fired st1"
    by blast
  then have "\<not> may_start (hosts' ! nat idx') st1"
    using assms(6) by (simp add: may_start_def host_def)
  then have second: "manual_start_heartbeat idx' hosts' st1 = (Inr AlreadyRunning, st1)"
    using assms(4,5) by (simp add: manual_start_heartbeat_cases)
  have "length (running_loops st1 (host_id host)) = 1"
    using inv1 ev by (rule running_when_tracked)
  with second show ?thesis by (simp add: st1_def host_def)
qed

theorem manual_start_heartbeat_twice_witness:
  "gui_inv gui_init \<and>
   fst (manual_start_heartbeat 0 [jacinto, azura] gui_init) = Inr Started \<and>
   fst (manual_start_heartbeat 0 [jacinto, azura] (snd (manual_start_heartbeat 0 [jacinto, azura] gui_init)))
     = Inr AlreadyRunning \<and>
   snd (manual_start_heartbeat 0 [jacinto, azura] (snd (manual_start_heartbeat 0 [jacinto, azura] gui_init)))
     = snd (manual_start_heartbeat 0 [jacinto, azura] gui_init) \<and>
   length (running_loops
      (snd (manual_start_heartbeat 0 [jacinto, azura] (snd (manual_start_heartbeat 0 [jacinto, azura] gui_init))))
      ''h1'') = 1"
proof -
  have i: "host_id ([jacinto, azura] ! nat 0) = ''h1''" by (simp add: jacinto_def)
  have s: "fst (manual_start_heartbeat 0 [jacinto, azura] gui_init) = Inr Started"
    by (simp add: manual_start_heartbeat_def gui_init_def)
  have "(0::int) \<le> 0" "nat 0 < length [jacinto, azura]"
    "host_id ([jacinto, azura] ! nat 0) = host_id ([jacinto, azura] ! nat 0)"
    by simp_all
  from manual_start_heartbeat_twice[OF gui_inv_init this(1,2) this(1,2) this(3)]
  show ?thesis
    unfolding i using gui_inv_init s by blast
qed

subsection \<open>Stopping all heartbeats\<close>

text \<open>
  Claim C7. \<^verbatim>\<open>manual_stop_heartbeat\<close> empties the dictionary and sets the event of
  every entry it held, whether or not some of them were set already; it sets no other
  event and starts or forgets no thread. It reports that nothing was running exactly
  when no entry had an event still clear (an empty dictionary included), and that all
  were stopped exactly when some entry had. In a state the menu actions can reach, no
  loop is running afterwards.
\<close>

theorem manual_stop_heartbeat_all:
  "hb_threads (snd (manual_stop_heartbeat st)) = [] \<and>
   (\<forall>e \<in> set (hb_threads st). snd e \<in> fired (snd (manual_stop_heartbeat st))) \<and>
   fired (snd (manual_stop_heartbeat st)) = fired st \<union> snd ` set (hb_threads st) \<and>
   threads (snd (manual_stop_heartbeat st)) = threads st \<and>
   (fst (manual_stop_heartbeat st) = NoActiveHeartbeat) = (\<forall>e \<in> set (hb_threads st). snd e \<in> fired st) \<and>
   (fst (manual_stop_heartbeat st) = AllStopped) = (\<exists>e \<in> set (hb_threads st). snd e \<notin> fired st) \<and>
   (gui_inv st \<longrightarrow> (\<forall>i. running_loops (snd (manual_stop_heartbeat st)) i = []))"
proof -
  have "gui_inv st \<longrightarrow> (\<forall>i. running_loops (snd (manual_stop_heartbeat st)) i = [])"
    by (simp add: stopped_none_running)
  moreover have "hb_threads (snd (manual_stop_heartbeat st)) = []"
    "fired (snd (manual_stop_heartbeat st)) = fired st \<union> snd ` set (hb_threads st)"
    "threads (snd (manual_stop_heartbeat st)) = threads st"
    by (simp_all add: manual_stop_heartbeat_state)
  moreover have
    "(fst (manual_stop_heartbeat st) = NoActiveHeartbeat) = (\<forall>e \<in> set (hb_threads st). snd e \<in> fired st)"
    "(fst (manual_stop_heartbeat st) = AllStopped) = (\<exists>e \<in> set (hb_threads st). snd e \<notin> fired st)"
    by (simp_all add: manual_stop_heartbeat_result)
  ultimately show ?thesis by auto
qed

theorem manual_stop_heartbeat_all_witness:
  "map snd (hb_threads two_running) = [0, 1] \<and> fired two_running = {} \<and>
   fst (manual_stop_heartbeat two_running) = AllStopped \<and>
   hb_threads (snd (manual_stop_heartbeat two_running)) = [] \<and>
   fired (snd (manual_stop_heartbeat two_running)) = {0, 1} \<and>
   fst (manual_stop_heartbeat gui_init) = NoActiveHeartbeat \<and>
   fst (manual_stop_heartbeat (snd (manual_stop_heartbeat two_running))) = NoActiveHeartbeat"
proof -
  have t: "hb_threads two_running = [(''h1'', 0), (''h2'', 1)]" "fired two_running = {}"
    by (simp_all add: two_running_def manual_start_heartbeat_def start_thread_def gui_init_def
        jacinto_def azura_def Let_def)
  have e: "hb_threads gui_init = []" by (simp add: gui_init_def)
  note two = manual_stop_heartbeat_all[of two_running]
  have "(''h1'', 0) \<in> set (hb_threads two_running)" "snd (''h1'', 0::nat) \<notin> fired two_running"
    by (simp_all add: t)
  then have "\<exists>e \<in> set (hb_threads two_running). snd e \<notin> fired two_running" by (rule bexI[rotated])
  with two have r1: "fst (manual_stop_heartbeat two_running) = AllStopped" by blast
  from two have r2: "hb_threads (snd (manual_stop_heartbeat two_running)) = []" by blast
  from two have "fired (snd (manual_stop_heartbeat two_running)) =
      fired two_running \<union> snd ` set (hb_threads two_running)" by blast
  then have r3: "fired (snd (manual_stop_heartbeat two_running)) = {0, 1}" by (simp add: t)
  have "\<forall>e \<in> set (hb_threads gui_init). snd e \<in> fired gui_init" by (simp add: e)
  with manual_stop_heartbeat_all[of gui_init]
  have r4: "fst (manual_stop_heartbeat gui_init) = NoActiveHeartbeat" by blast
  have "\<forall>e \<in> set (hb_threads (snd (manual_stop_heartbeat two_running))).
      snd e \<in> fired (snd (manual_stop_heartbeat two_running))" by (simp add: r2)
  with manual_stop_heartbeat_all[of "snd (manual_stop_heartbeat two_running)"]
  have r5: "fst (manual_stop_heartbeat (snd (manual_stop_heartbeat two_running))) = NoActiveHeartbeat"
    by blast
  show ?thesis using t r1 r2 r3 r4 r5 by simp
qed

subsection \<open>Passes of the heartbeat loop\<close>

lemma emitted_append: "emitted (xs @ ys) = emitted xs @ emitted ys"
  by (induction xs rule: emitted.induct) simp_all

lemma post_times_append: "post_times (xs @ ys) = post_times xs @ post_times ys"
  by (induction xs rule: post_times.induct) simp_all

lemma waits_append: "waits (xs @ ys) = waits xs @ waits ys"
  by (induction xs rule: waits.induct) simp_all

lemma paced_append: "paced b xs \<Longrightarrow> paced b (xs @ ys) = paced False ys"
  by (induction b xs rule: paced.induct) simp_all

lemma hb_body_fields:
  "clock (hb_body stop host x st) = event_wait stop (clock st + snd x) HEARTBEAT_INTERVAL"
  "failures (hb_body stop host x st) = (if success (fst x) then 0 else failures st + 1)"
  "post_times (trace (hb_body stop host x st)) = post_times (trace st) @ [clock st]"
  "waits (trace (hb_body stop host x st)) =
     waits (trace st) @
     [(clock st + snd x, event_wait stop (clock st + snd x) HEARTBEAT_INTERVAL - (clock st + snd x))]"
  "emitted (trace (hb_body stop host x st)) =
     emitted (trace st) @ (if success (fst x) then [''lime''] else []) @
     (if 2 \<le> (if success (fst x) then 0 else failures st + 1) then [''red''] else [])"
  by (simp_all add: hb_body_def Let_def post_times_append waits_append emitted_append)

lemma paced_hb_body:
  "paced False (trace st) \<Longrightarrow> paced False (trace (hb_body stop host x st))"
  by (simp add: hb_body_def Let_def paced_append)

lemma event_wait_full:
  "\<not> is_set stop (event_wait stop t timeout) \<Longrightarrow> event_wait stop t timeout = t + timeout"
  by (auto simp: event_wait_def is_set_def split: option.splits if_splits)

lemma hb_inv_hb_body:
  assumes inv: "hb_inv stop st" and run: "\<not> is_set stop (clock st)" and d: "0 \<le> snd x"
  shows "hb_inv stop (hb_body stop host x st)"
proof -
  let ?st = "hb_body stop host x st"
  from inv have i1: "\<forall>t \<in> set (post_times (trace st)). \<not> is_set stop t"
    and i2: "successively (\<lambda>a b. a + HEARTBEAT_INTERVAL \<le> b) (post_times (trace st))"
    and i3: "post_times (trace st) \<noteq> [] \<and> \<not> is_set stop (clock st) \<longrightarrow>
         last (post_times (trace st)) + HEARTBEAT_INTERVAL \<le> clock st"
    and i4: "\<forall>tw \<in> set (waits (trace st)).
         snd tw = event_wait stop (fst tw) HEARTBEAT_INTERVAL - fst tw"
    and i5: "paced False (trace st)" and i6: "0 \<le> failures st"
    by (simp_all add: hb_inv_def)
  have c1: "\<forall>t \<in> set (post_times (trace ?st)). \<not> is_set stop t"
    using i1 run by (simp add: hb_body_fields)
  have c2: "successively (\<lambda>a b. a + HEARTBEAT_INTERVAL \<le> b) (post_times (trace ?st))"
    using i2 i3 run by (auto simp: hb_body_fields successively_append_iff)
  have c3: "last (post_times (trace ?st)) + HEARTBEAT_INTERVAL \<le> clock ?st"
    if "\<not> is_set stop (clock ?st)"
  proof -
    from that have "\<not> is_set stop (event_wait stop (clock st + snd x) HEARTBEAT_INTERVAL)"
      by (simp add: hb_body_fields(1))
    then have "event_wait stop (clock st + snd x) HEARTBEAT_INTERVAL =
        clock st + snd x + HEARTBEAT_INTERVAL"
      by (rule event_wait_full)
    then have "clock ?st = clock st + snd x + HEARTBEAT_INTERVAL"
      by (simp add: hb_body_fields(1))
    with d show ?thesis by (simp add: hb_body_fields(3))
  qed
  have c4: "\<forall>tw \<in> set (waits (trace ?st)).
         snd tw = event_wait stop (fst tw) HEARTBEAT_INTERVAL - fst tw"
    using i4 by (simp add: hb_body_fields)
  have c5: "paced False (trace ?st)" using i5 by (rule paced_hb_body)
  have c6: "0 \<le> failures ?st" using i6 by (simp add: hb_body_fields)
  show ?thesis
    unfolding hb_inv_def using c1 c2 c3 c4 c5 c6 by blast
qed

lemma hb_while_inv:
  assumes "\<forall>x \<in> set env. 0 \<le> snd x" and "hb_inv stop st0"
    and "hb_while stop host env st0 = (st, rest)"
  shows "hb_inv stop st \<and>
         length (post_times (trace st)) + length rest = length (post_times (trace st0)) + length env \<and>
         length (waits (trace st)) + length rest = length (waits (trace st0)) + length env \<and>
         (rest \<noteq> [] \<longrightarrow> is_set stop (clock st))"
  using assms
proof (induction env arbitrary: st0)
  case Nil
  then show ?case by simp
next
  case (Cons x xs)
  show ?case
  proof (cases "is_set stop (clock st0)")
    case True
    with Cons.prems show ?thesis by simp
  next
    case False
    with Cons.prems have run: "hb_while stop host xs (hb_body stop host x st0) = (st, rest)"
      by simp
    have "hb_inv stop (hb_body stop host x st0)"
      using Cons.prems(1,2) False by (simp add: hb_inv_hb_body)
    from Cons.IH[OF _ this run] Cons.prems(1) show ?thesis
      by (simp add: hb_body_fields)
  qed
qed

lemma reported_snoc:
  assumes "emitted (trace st) = cs @ [c]"
  shows "reported st = Some c"
proof -
  have "emitted (trace st) \<noteq> []" using assms by simp
  then obtain a l where al: "emitted (trace st) = a # l"
    by (auto simp: neq_Nil_conv)
  have "last (a # l) = c" using assms al by (metis last_snoc)
  then show ?thesis by (simp add: reported_def al del: last.simps)
qed

lemma hb_while_failures:
  "0 \<le> failures st0 \<Longrightarrow> hb_while stop host env st0 = (st, rest) \<Longrightarrow> 0 \<le> failures st"
proof (induction env arbitrary: st0)
  case Nil
  then show ?case by simp
next
  case (Cons x xs)
  show ?case
  proof (cases "is_set stop (clock st0)")
    case True
    with Cons.prems show ?thesis by simp
  next
    case False
    have "0 \<le> failures (hb_body stop host x st0)"
      using Cons.prems(1) by (simp add: hb_body_fields)
    moreover have "hb_while stop host xs (hb_body stop host x st0) = (st, rest)"
      using Cons.prems(2) False by simp
    ultimately show ?thesis by (rule Cons.IH)
  qed
qed

lemma hb_inv_start: "hb_inv stop \<lparr>clock = started, failures = 0, trace = []\<rparr>"
  by (simp add: hb_inv_def)

lemma hb_while_stopped: "is_set stop (clock st) \<Longrightarrow> hb_while stop host later st = (st, later)"
  by (cases later) simp_all

lemma hb_while_snoc:
  "hb_while stop host (xs @ [x]) st = (st', []) \<Longrightarrow>
   \<exists>st1. hb_while stop host xs st = (st1, []) \<and> \<not> is_set stop (clock st1) \<and>
         st' = hb_body stop host x st1"
  by (induction xs arbitrary: st) (auto split: if_splits)

text \<open>
  A loop whose event is set at some instant does leave: each pass that finds the event
  clear takes at least 5 seconds or ends with the event set, so the passes that fit
  before that instant, and one more, are enough.
\<close>

lemma hb_while_leaves:
  assumes "\<forall>x \<in> set env. 0 \<le> snd x"
    and "c \<le> clock st0 + HEARTBEAT_INTERVAL * real (length env)"
  shows "is_set (Some c) (clock (fst (hb_while (Some c) host env st0)))"
  using assms
proof (induction env arbitrary: st0)
  case Nil
  then show ?case by (simp add: is_set_def)
next
  case (Cons x xs)
  show ?case
  proof (cases "is_set (Some c) (clock st0)")
    case True
    then show ?thesis by simp
  next
    case False
    have "c \<le> clock (hb_body (Some c) host x st0) + HEARTBEAT_INTERVAL * real (length xs)"
      using Cons.prems
      by (auto simp: hb_body_fields event_wait_def HEARTBEAT_INTERVAL_def min_def algebra_simps)
    with Cons.prems(1) have "is_set (Some c) (clock (fst (hb_while (Some c) host xs (hb_body (Some c) host x st0))))"
      by (intro Cons.IH) simp_all
    with False show ?thesis by simp
  qed
qed

subsection \<open>Cadence and cancellation of the loop\<close>

text \<open>
  Claim C8. Take a run of \<^verbatim>\<open>_hb_loop\<close> over passes whose requests take no negative
  time. Each pass that was run posted one announce and then waited once, posts and waits
  alternating in the trace; successive announces are at least 5 seconds apart. A wait
  lasts 5 seconds when the event is not set by its end, it ends at the very instant the
  event is set when that falls within the 5 seconds, and it returns at once when the
  event was set before. No announce is posted at an instant at which the event is set;
  the loop leaves passes unused only because it found the event set; and once the event
  is set when a wait has returned, the loop posts nothing more, whatever passes remain.
\<close>

theorem hb_loop_cadence:
  assumes "\<forall>x \<in> set env. 0 \<le> snd x"
    and "hb_loop host stop env started = (st, rest)"
  shows "length (post_times (trace st)) + length rest = length env \<and>
         length (waits (trace st)) + length rest = length env \<and>
         paced False (trace st) \<and>
         successively (\<lambda>a b. a + 5 \<le> b) (post_times (trace st)) \<and>
         (\<forall>tw \<in> set (waits (trace st)).
            (\<not> is_set stop (fst tw + 5) \<longrightarrow> snd tw = 5) \<and>
            (\<forall>c. stop = Some c \<and> fst tw \<le> c \<and> c \<le> fst tw + 5 \<longrightarrow> fst tw + snd tw = c) \<and>
            (is_set stop (fst tw) \<longrightarrow> snd tw = 0)) \<and>
         (\<forall>t \<in> set (post_times (trace st)). \<not> is_set stop t) \<and>
         (rest \<noteq> [] \<longrightarrow> is_set stop (clock st)) \<and>
         (is_set stop (clock st) \<longrightarrow> (\<forall>later. hb_while stop host later st = (st, later)))"
proof -
  from hb_while_inv[OF assms(1) hb_inv_start assms(2)[unfolded hb_loop_def]]
  have inv: "hb_inv stop st"
    and n: "length (post_times (trace st)) + length rest = length env"
      "length (waits (trace st)) + length rest = length env"
    and r: "rest \<noteq> [] \<longrightarrow> is_set stop (clock st)"
    by simp_all
  have w: "(\<not> is_set stop (fst tw + 5) \<longrightarrow> snd tw = 5) \<and>
            (\<forall>c. stop = Some c \<and> fst tw \<le> c \<and> c \<le> fst tw + 5 \<longrightarrow> fst tw + snd tw = c) \<and>
            (is_set stop (fst tw) \<longrightarrow> snd tw = 0)"
    if "tw \<in> set (waits (trace st))" for tw
  proof -
    from inv that have "snd tw = event_wait stop (fst tw) HEARTBEAT_INTERVAL - fst tw"
      by (simp add: hb_inv_def)
    then show ?thesis
      by (auto simp: event_wait_def is_set_def HEARTBEAT_INTERVAL_def split: option.splits)
  qed
  from inv have "paced False (trace st)"
    "successively (\<lambda>a b. a + 5 \<le> b) (post_times (trace st))"
    "\<forall>t \<in> set (post_times (trace st)). \<not> is_set stop t"
    by (simp_all add: hb_inv_def HEARTBEAT_INTERVAL_def)
  with n r w show ?thesis by (simp add: hb_while_stopped)
qed

theorem hb_loop_cadence_witness:
  "0 \<le> (3::real) \<and> 0 \<le> (1::real) \<and> 0 \<le> (0::real) \<and>
   snd (hb_loop jacinto sample_stop sample_run 0) = [(Response 200, 1), (Raised, 0)] \<and>
   post_times (trace (fst (hb_loop jacinto sample_stop sample_run 0))) = [0, 8] \<and>
   waits (trace (fst (hb_loop jacinto sample_stop sample_run 0))) = [(3, 5), (9, 3)] \<and>
   clock (fst (hb_loop jacinto sample_stop sample_run 0)) = 12 \<and>
   length (post_times (trace (fst (hb_loop jacinto sample_stop sample_run 0)))) + 2 = 4 \<and>
   paced False (trace (fst (hb_loop jacinto sample_stop sample_run 0))) \<and>
   is_set sample_stop (clock (fst (hb_loop jacinto sample_stop sample_run 0))) \<and>
   hb_while sample_stop jacinto sample_run (fst (hb_loop jacinto sample_stop sample_run 0)) =
     (fst (hb_loop jacinto sample_stop sample_run 0), sample_run)"
proof -
  have e: "\<forall>x \<in> set sample_run. 0 \<le> snd x" by (simp add: sample_run_def)
  obtain st where run: "hb_loop jacinto sample_stop sample_run 0 = (st, [(Response 200, 1), (Raised, 0)])"
    by (simp add: hb_loop_def sample_run_def sample_stop_def is_set_def hb_body_def Let_def
        event_wait_def HEARTBEAT_INTERVAL_def)
  have v: "post_times (trace st) = [0, 8]" "waits (trace st) = [(3, 5), (9, 3)]" "clock st = 12"
    using run
    by (auto simp: hb_loop_def sample_run_def sample_stop_def is_set_def hb_body_def Let_def
        event_wait_def HEARTBEAT_INTERVAL_def success_def)
  from hb_loop_cadence[OF e run]
  have "length (post_times (trace st)) + length [(Response 200, 1::real), (Raised, 0)] = length sample_run"
    and "paced False (trace st)"
    and "[(Response 200, 1::real), (Raised, 0)] \<noteq> [] \<longrightarrow> is_set sample_stop (clock st)"
    and "is_set sample_stop (clock st) \<longrightarrow>
          (\<forall>later. hb_while sample_stop jacinto later st = (st, later))"
    by blast+
  then show ?thesis
    using run v by (simp add: sample_run_def)
qed

subsection \<open>Degraded after two failures, healthy after a success\<close>

text \<open>
  Claim C4. In a run of \<^verbatim>\<open>_hb_loop\<close> whose last two passes both failed (a raised
  exception or a status outside 200 to 299), the failure counter is at least 2 and the
  colour reported last is \<^verbatim>\<open>red\<close>, the degraded one. When the pass that follows
  succeeds, the counter is 0 and the colour reported last is \<^verbatim>\<open>lime\<close>, the healthy one.
\<close>

theorem hb_loop_degraded_then_healthy:
  assumes "\<not> success (fst x1)" and "\<not> success (fst x2)"
    and "hb_loop host stop (pre @ [x1, x2]) started = (st2, [])"
  shows "2 \<le> failures st2 \<and> reported st2 = Some ''red'' \<and>
         (\<forall>x3 st3. success (fst x3) \<and>
              hb_loop host stop (pre @ [x1, x2, x3]) started = (st3, []) \<longrightarrow>
            failures st3 = 0 \<and> reported st3 = Some ''lime'')"
proof -
  let ?st0 = "\<lparr>clock = started, failures = 0, trace = []\<rparr>"
  have run2: "hb_while stop host ((pre @ [x1]) @ [x2]) ?st0 = (st2, [])"
    using assms(3) by (simp add: hb_loop_def)
  from hb_while_snoc[OF run2] obtain st1
    where run1: "hb_while stop host (pre @ [x1]) ?st0 = (st1, [])"
      and st2: "st2 = hb_body stop host x2 st1" by blast
  from hb_while_snoc[OF run1] obtain st0
    where run0: "hb_while stop host pre ?st0 = (st0, [])"
      and st1: "st1 = hb_body stop host x1 st0" by blast
  have "0 \<le> failures st0"
    using hb_while_failures[OF _ run0] by simp
  then have f1: "1 \<le> failures st1" using assms(1) by (simp add: st1 hb_body_fields)
  then have f2: "2 \<le> failures st2" using assms(2) by (simp add: st2 hb_body_fields)
  have r2: "reported st2 = Some ''red''"
    using assms(2) f1 by (intro reported_snoc[of _ "emitted (trace st1)"]) (simp add: st2 hb_body_fields)
  have "failures st3 = 0 \<and> reported st3 = Some ''lime''"
    if ok: "success (fst x3)"
      and run: "hb_loop host stop (pre @ [x1, x2, x3]) started = (st3, [])" for x3 st3
  proof -
    have "hb_while stop host ((pre @ [x1, x2]) @ [x3]) ?st0 = (st3, [])"
      using run by (simp add: hb_loop_def)
    from hb_while_snoc[OF this] obtain st2'
      where "hb_while stop host (pre @ [x1, x2]) ?st0 = (st2', [])"
        and st3: "st3 = hb_body stop host x3 st2'" by blast
    have "reported st3 = Some ''lime''"
      using ok by (intro reported_snoc[of _ "emitted (trace st2')"]) (simp add: st3 hb_body_fields)
    with ok show ?thesis by (simp add: st3 hb_body_fields)
  qed
  with f2 r2 show ?thesis by blast
qed

theorem hb_loop_degraded_then_healthy_witness:
  "\<not> success Raised \<and> \<not> success (Response 500) \<and> success (Response 200) \<and>
   snd (hb_loop jacinto None [(Raised, 3), (Response 500, 1)] 0) = [] \<and>
   failures (fst (hb_loop jacinto None [(Raised, 3), (Response 500, 1)] 0)) = 2 \<and>
   reported (fst (hb_loop jacinto None [(Raised, 3), (Response 500, 1)] 0)) = Some ''red'' \<and>
   snd (hb_loop jacinto None [(Raised, 3), (Response 500, 1), (Response 200, 1)] 0) = [] \<and>
   failures (fst (hb_loop jacinto None [(Raised, 3), (Response 500, 1), (Response 200, 1)] 0)) = 0 \<and>
   reported (fst (hb_loop jacinto None [(Raised, 3), (Response 500, 1), (Response 200, 1)] 0))
     = Some ''lime''"
proof -
  have s: "\<not> success (fst (Raised, 3::real))" "\<not> success (fst (Response 500, 1::real))"
    "success (fst (Response 200, 1::real))"
    by (simp_all add: success_def)
  obtain st2 where r2: "hb_loop jacinto None ([] @ [(Raised, 3), (Response 500, 1)]) 0 = (st2, [])"
    by (simp add: hb_loop_def is_set_def)
  obtain st3 where
    r3: "hb_loop jacinto None ([] @ [(Raised, 3), (Response 500, 1), (Response 200, 1)]) 0 = (st3, [])"
    by (simp add: hb_loop_def is_set_def)
  from hb_loop_degraded_then_healthy[OF s(1,2) r2]
  have a: "2 \<le> failures st2" "reported st2 = Some ''red''"
    and b: "failures st3 = 0 \<and> reported st3 = Some ''lime''"
    using s(3) r3 by blast+
  have "failures st2 = 2"
    using r2 by (auto simp: hb_loop_def is_set_def hb_body_def Let_def success_def)
  with a b r2 r3 s show ?thesis by simp
qed

end
